theory Spec2Isabelle
  imports Main
begin

unbundle bit_operations_syntax

section \<open>Python values used by the prime engine\<close>

text \<open>
  Python integers are unbounded and are modelled by the type of HOL integers, whose
  floor division and remainder agree with the operators of Python on every pair of
  signs.  An exception raised by the code is a value \<open>Inl e\<close> of a sum type.
\<close>

datatype pyerr = ValueError | OverflowError | ZeroDivisionError | IndexError

subsection \<open>Double-precision floats\<close>

text \<open>
  \<open>math.sqrt\<close>, true division and \<open>float * int\<close> produce IEEE 754 doubles.  A finite
  double is modelled by its exact value: \<open>Double m e\<close> denotes \<open>m * 2 ^ e\<close>.  All
  operations below are value based, so a value may have several representations.
  Rounding is to nearest, ties to even, with a 53 bit significand.
\<close>

datatype double = Double int int

text \<open>\<open>int.bit_length()\<close> for non-negative arguments.\<close>

function bit_length :: "int \<Rightarrow> nat" where
  "bit_length x = (if x \<le> 0 then 0 else Suc (bit_length (x div 2)))"
  by pat_completeness auto
termination
  by (relation "measure nat") auto

declare bit_length.simps [simp del]

text \<open>The integer square root \<open>\<lfloor>\<surd>n\<rfloor>\<close>, used to compute correctly rounded roots.\<close>

function isqrt :: "int \<Rightarrow> int" where
  "isqrt n = (if n < 1 then 0 else if n < 4 then 1
     else (let r = 2 * isqrt (n div 4) in if (r + 1) * (r + 1) \<le> n then r + 1 else r))"
  by pat_completeness auto
termination
  by (relation "measure nat") auto

declare isqrt.simps [simp del]

text \<open>
  Conversion of an \<open>int\<close> to a double (\<open>float(x)\<close>, also done implicitly by
  \<open>math.sqrt\<close>): exact up to 53 bits, otherwise rounded to 53 bits, and
  \<open>OverflowError\<close> when the rounded value reaches \<open>2 ^ 1024\<close>.
\<close>

definition float_of_int :: "int \<Rightarrow> pyerr + double" where
  "float_of_int x =
     (let a = \<bar>x\<bar>; b = bit_length a in
      if b \<le> 53 then Inr (Double x 0)
      else
        (let sh = b - 53; q = a div 2 ^ sh; r = a mod 2 ^ sh;
             q' = (if 2 * r > 2 ^ sh \<or> (2 * r = 2 ^ sh \<and> odd q) then q + 1 else q)
         in if q' * 2 ^ sh \<ge> 2 ^ 1024 then Inl OverflowError
            else Inr (Double (sgn x * q') (int sh))))"

text \<open>
  The correctly rounded square root of a non-negative double.  The significand is
  scaled by a power of four so that its integer square root has 53 bits; the root of a
  double is never half-way between two doubles, so the comparison with \<open>S * S + S\<close>
  decides the rounding.
\<close>

definition dsqrt :: "double \<Rightarrow> double" where
  "dsqrt d = (case d of Double m e \<Rightarrow>
     if m \<le> 0 then Double 0 0
     else
       (let m1 = (if even e then m else 2 * m);
            e1 = (if even e then e else e - 1);
            t = (106 - int (bit_length m1)) div 2;
            X = m1 * 4 ^ nat t;
            S = isqrt X;
            S' = (if X > S * S + S then S + 1 else S)
        in Double S' (e1 div 2 - t)))"

text \<open>\<open>math.sqrt(x)\<close> for an \<open>int\<close> argument.\<close>

definition math_sqrt :: "int \<Rightarrow> pyerr + double" where
  "math_sqrt x = (case float_of_int x of
       Inl err \<Rightarrow> Inl err
     | Inr (Double m e) \<Rightarrow> if m < 0 then Inl ValueError else Inr (dsqrt (Double m e)))"

text \<open>\<open>f.is_integer()\<close>, \<open>int(f)\<close> (truncation towards zero) and \<open>f >= 0\<close>.\<close>

definition double_is_integer :: "double \<Rightarrow> bool" where
  "double_is_integer d = (case d of Double m e \<Rightarrow> 0 \<le> e \<or> m mod 2 ^ nat (- e) = 0)"

definition int_of_double :: "double \<Rightarrow> int" where
  "int_of_double d = (case d of Double m e \<Rightarrow>
     if 0 \<le> e then m * 2 ^ nat e
     else if 0 \<le> m then m div 2 ^ nat (- e)
     else - ((- m) div 2 ^ nat (- e)))"

definition double_ge0 :: "double \<Rightarrow> bool" where
  "double_ge0 d = (case d of Double m e \<Rightarrow> 0 \<le> m)"

text \<open>
  The double nearest to the non-negative fraction \<open>N / D\<close> (\<open>0 \<le> N\<close>, \<open>0 < D\<close>).
  The exponent is not taken below \<open>-1074\<close>, the exponent of the subnormal doubles.
\<close>

definition round_ratio :: "int \<Rightarrow> int \<Rightarrow> double" where
  "round_ratio N D =
     (if N = 0 then Double 0 0
      else
        (let e0 = int (bit_length N) - int (bit_length D) - 53;
             e1 = (if (if 0 \<le> e0 then N div (D * 2 ^ nat e0) else (N * 2 ^ nat (- e0)) div D) \<ge> 2 ^ 53
                   then e0 + 1 else e0);
             e = max e1 (- 1074);
             N' = (if 0 \<le> e then N else N * 2 ^ nat (- e));
             D' = (if 0 \<le> e then D * 2 ^ nat e else D);
             q = N' div D';
             r = N' mod D';
             q' = (if 2 * r > D' \<or> (2 * r = D' \<and> odd q) then q + 1 else q)
         in Double q' e))"

text \<open>
  True division \<open>a / b\<close> of two \<open>int\<close>s: the correctly rounded quotient,
  \<open>ZeroDivisionError\<close> for a zero divisor and \<open>OverflowError\<close> when the quotient
  is too large for a double.
\<close>

definition py_truediv :: "int \<Rightarrow> int \<Rightarrow> pyerr + double" where
  "py_truediv a b =
     (if b = 0 then Inl ZeroDivisionError
      else (case round_ratio \<bar>a\<bar> \<bar>b\<bar> of Double q e \<Rightarrow>
        if 0 \<le> e \<and> q * 2 ^ nat e \<ge> 2 ^ 1024 then Inl OverflowError
        else Inr (Double (sgn a * sgn b * q) e)))"

text \<open>
  The product \<open>f * k\<close> of a double and a small \<open>int\<close> (\<open>k\<close> is converted exactly).
  Overflow to infinity is not modelled: the only use multiplies a quotient of a list
  length and a grid size by 100.
\<close>

definition double_times_int :: "double \<Rightarrow> int \<Rightarrow> double" where
  "double_times_int d k = (case d of Double m e \<Rightarrow>
     (case (if 0 \<le> e then round_ratio (\<bar>m * k\<bar> * 2 ^ nat e) 1
            else round_ratio \<bar>m * k\<bar> (2 ^ nat (- e))) of
        Double q e' \<Rightarrow> Double (sgn (m * k) * q) e'))"

section \<open>prime_generator.py\<close>

subsection \<open>is_prime: trial division by 6k +- 1\<close>

function is_prime_loop :: "int \<Rightarrow> int \<Rightarrow> bool" where
  "is_prime_loop n i =
     (if i * i \<le> n then
        (if n mod i = 0 \<or> n mod (i + 2) = 0 then False else is_prime_loop n (i + 6))
      else True)"
  by pat_completeness auto
termination
proof (relation "measure (\<lambda>(n, i). nat (n + 1 - i))")
  show "wf (measure (\<lambda>(n, i). nat (n + 1 - i)))" by simp
next
  fix n i :: int
  assume a: "i * i \<le> n"
  have "i \<le> i * i"
  proof (cases "0 < i")
    case True
    then have "i * 1 \<le> i * i" by (intro mult_left_mono) auto
    then show ?thesis by simp
  next
    case False
    then have "i \<le> 0" by simp
    also have "0 \<le> i * i" by simp
    finally show ?thesis .
  qed
  with a have "i \<le> n" by simp
  then show "((n, i + 6), (n, i)) \<in> measure (\<lambda>(n, i). nat (n + 1 - i))" by simp
qed

declare is_prime_loop.simps [simp del]

definition is_prime :: "int \<Rightarrow> bool" where
  "is_prime n =
     (if n \<le> 1 then False
      else if n \<le> 3 then True
      else if n mod 2 = 0 \<or> n mod 3 = 0 then False
      else is_prime_loop n 5)"

subsection \<open>generate_primes: the sieve of Eratosthenes\<close>

text \<open>\<open>range(a, b)\<close> and \<open>range(a, b, s)\<close> for a positive step \<open>s\<close>.\<close>

definition py_range :: "int \<Rightarrow> int \<Rightarrow> int list" where
  "py_range a b = [a..b - 1]"

definition py_range_step :: "int \<Rightarrow> int \<Rightarrow> int \<Rightarrow> int list" where
  "py_range_step a b s = map (\<lambda>k. a + int k * s) [0..<nat ((b - a + s - 1) div s)]"

text \<open>
  The inner loop \<open>for j in range(i*i, limit + 1, i): sieve[j] = False\<close>.  Every \<open>j\<close>
  of the range lies in \<open>[0, limit]\<close>, inside the list, so the store never fails.
\<close>

definition sieve_inner :: "int \<Rightarrow> int \<Rightarrow> bool list \<Rightarrow> bool list" where
  "sieve_inner limit i sieve =
     fold (\<lambda>j sv. sv[nat j := False]) (py_range_step (i * i) (limit + 1) i) sieve"

text \<open>
  The outer loop over \<open>i\<close>.  The read \<open>sieve[i]\<close> raises \<open>IndexError\<close> when \<open>i\<close> is
  not an index of the list (\<open>i\<close> is at least 2 here, so it is never a negative index).
\<close>

fun sieve_outer :: "int \<Rightarrow> int list \<Rightarrow> bool list \<Rightarrow> pyerr + bool list" where
  "sieve_outer limit [] sieve = Inr sieve"
| "sieve_outer limit (i # is) sieve =
     (if \<not> (i < int (length sieve)) then Inl IndexError
      else if sieve ! nat i then sieve_outer limit is (sieve_inner limit i sieve)
      else sieve_outer limit is sieve)"

definition generate_primes :: "int \<Rightarrow> pyerr + int list" where
  "generate_primes limit =
     (if limit < 2 then Inr []
      else
        (let sieve = (replicate (nat (limit + 1)) True)[0 := False, 1 := False] in
         case math_sqrt limit of
           Inl err \<Rightarrow> Inl err
         | Inr root \<Rightarrow>
             (case sieve_outer limit (py_range 2 (int_of_double root + 1)) sieve of
                Inl err \<Rightarrow> Inl err
              | Inr sv \<Rightarrow> Inr (filter (\<lambda>i. sv ! nat i) (py_range 0 (limit + 1))))))"

definition generate_primes_set :: "int \<Rightarrow> pyerr + int set" where
  "generate_primes_set limit =
     (case generate_primes limit of Inl err \<Rightarrow> Inl err | Inr ps \<Rightarrow> Inr (set ps))"

section \<open>prime_classifier.py\<close>

text \<open>
  \<open>str(n)\<close> for \<open>n \<ge> 0\<close>, as the list of its decimal digits (most significant first),
  and \<open>int(s)\<close> for such a list.  Every use below is guarded by \<open>is_prime n\<close> or by an
  explicit test of the sign, so the minus sign of \<open>str\<close> never occurs in these lists.
\<close>

function digits :: "int \<Rightarrow> int list" where
  "digits n = (if n < 10 then [n] else digits (n div 10) @ [n mod 10])"
  by pat_completeness auto
termination
  by (relation "measure nat") auto

declare digits.simps [simp del]

definition undigits :: "int list \<Rightarrow> int" where
  "undigits ds = foldl (\<lambda>a d. 10 * a + d) 0 ds"

definition is_twin_prime :: "int \<Rightarrow> int set \<Rightarrow> bool" where
  "is_twin_prime n primes_set = (n \<in> primes_set \<and> (n - 2 \<in> primes_set \<or> n + 2 \<in> primes_set))"

text \<open>
  \<open>math.log2\<close> is reached only when \<open>n + 1\<close> is a power of two; there it returns the
  exponent exactly, which is \<open>bit_length (n + 1) - 1\<close>.
\<close>

definition is_mersenne_prime :: "int \<Rightarrow> bool" where
  "is_mersenne_prime n =
     (if \<not> is_prime n then False
      else
        (let n_plus_1 = n + 1 in
         if n_plus_1 AND (n_plus_1 - 1) \<noteq> 0 then False
         else is_prime (int (bit_length n_plus_1) - 1)))"

definition is_safe_prime :: "int \<Rightarrow> bool" where
  "is_safe_prime n = (n > 2 \<and> is_prime n \<and> is_prime ((n - 1) div 2))"

definition is_sophie_germain_prime :: "int \<Rightarrow> bool" where
  "is_sophie_germain_prime n = (is_prime n \<and> is_prime (2 * n + 1))"

definition is_palindromic_prime :: "int \<Rightarrow> bool" where
  "is_palindromic_prime n = (is_prime n \<and> digits n = rev (digits n))"

definition is_circular_prime :: "int \<Rightarrow> bool" where
  "is_circular_prime n =
     (if \<not> is_prime n then False
      else
        (let str_n = digits n in
         if length str_n = 1 then True
         else list_all (\<lambda>i. is_prime (undigits (drop i str_n @ take i str_n)))
                [1..<length str_n]))"

function factorial_loop :: "int \<Rightarrow> int \<Rightarrow> int \<Rightarrow> bool" where
  "factorial_loop n factorial i =
     (if factorial < n + 1 \<and> i < 20 then
        (let factorial' = factorial * i in
         if n = factorial' - 1 \<or> n = factorial' + 1 then True
         else factorial_loop n factorial' (i + 1))
      else False)"
  by pat_completeness auto
termination
  by (relation "measure (\<lambda>(n, f, i). nat (20 - i))") auto

declare factorial_loop.simps [simp del]

definition is_factorial_prime :: "int \<Rightarrow> bool" where
  "is_factorial_prime n = (if \<not> is_prime n then False else factorial_loop n 1 1)"

definition is_perfect_square :: "int \<Rightarrow> pyerr + bool" where
  "is_perfect_square x = (case math_sqrt x of
       Inl err \<Rightarrow> Inl err
     | Inr root \<Rightarrow> (let sqrt_x = int_of_double root in Inr (sqrt_x * sqrt_x = x)))"

definition is_fibonacci_prime :: "int \<Rightarrow> pyerr + bool" where
  "is_fibonacci_prime n =
     (if \<not> is_prime n then Inr False
      else (case is_perfect_square (5 * n * n + 4) of
              Inl err \<Rightarrow> Inl err
            | Inr True \<Rightarrow> Inr True
            | Inr False \<Rightarrow> is_perfect_square (5 * n * n - 4)))"

definition is_sexy_prime :: "int \<Rightarrow> int set \<Rightarrow> bool" where
  "is_sexy_prime n primes_set = (is_prime n \<and> (n + 6 \<in> primes_set \<or> n - 6 \<in> primes_set))"

definition is_cuban_prime :: "int \<Rightarrow> pyerr + bool" where
  "is_cuban_prime n =
     (if \<not> is_prime n then Inr False
      else
        (let discriminant = 9 + 12 * (n - 1) in
         case math_sqrt discriminant of
           Inl err \<Rightarrow> Inl err
         | Inr sqrt_discriminant \<Rightarrow>
             if \<not> double_is_integer sqrt_discriminant then Inr False
             else (case py_truediv (- 3 + int_of_double sqrt_discriminant) 6 of
                     Inl err \<Rightarrow> Inl err
                   | Inr m \<Rightarrow> Inr (double_is_integer m \<and> double_ge0 m))))"

text \<open>
  The happy-number loop.  It has no iteration bound, so it is modelled as a partial
  function: \<open>None\<close> stands for a loop that never returns.  For a negative \<open>n\<close> the
  first \<open>int(digit)\<close> is applied to the minus sign and raises \<open>ValueError\<close>.
\<close>

definition sum_sq_digits :: "int \<Rightarrow> int" where
  "sum_sq_digits n = sum_list (map (\<lambda>digit. digit * digit) (digits n))"

partial_function (option) happy_loop :: "int set \<Rightarrow> int \<Rightarrow> (pyerr + bool) option" where
  "happy_loop seen n =
     (if n \<noteq> 1 \<and> n \<notin> seen then
        (if n < 0 then Some (Inl ValueError)
         else happy_loop (insert n seen) (sum_sq_digits n))
      else Some (Inr (n = 1)))"

definition is_happy_number :: "int \<Rightarrow> (pyerr + bool) option" where
  "is_happy_number n = happy_loop {} n"

definition is_happy_prime :: "int \<Rightarrow> (pyerr + bool) option" where
  "is_happy_prime n = (if is_prime n then is_happy_number n else Some (Inr False))"

fun chen_loop :: "int \<Rightarrow> int list \<Rightarrow> bool" where
  "chen_loop n_plus_2 [] = False"
| "chen_loop n_plus_2 (i # is) =
     (if n_plus_2 mod i = 0 then is_prime i \<and> is_prime (n_plus_2 div i)
      else chen_loop n_plus_2 is)"

definition is_chen_prime :: "int \<Rightarrow> pyerr + bool" where
  "is_chen_prime n =
     (if \<not> is_prime n then Inr False
      else
        (let n_plus_2 = n + 2 in
         if is_prime n_plus_2 then Inr True
         else if n_plus_2 < 4 then Inr False
         else (case math_sqrt n_plus_2 of
                 Inl err \<Rightarrow> Inl err
               | Inr root \<Rightarrow> Inr (chen_loop n_plus_2 (py_range 2 (int_of_double root + 1))))))"

definition is_wieferich_prime :: "int \<Rightarrow> bool" where
  "is_wieferich_prime n = (if \<not> is_prime n then False else n \<in> {1093, 3511})"

definition is_isolated_prime :: "int \<Rightarrow> int set \<Rightarrow> bool" where
  "is_isolated_prime n primes_set = (is_prime n \<and> n - 2 \<notin> primes_set \<and> n + 2 \<notin> primes_set)"

text \<open>
  The \<open>if\<close>/\<open>elif\<close> chain of \<open>classify_prime\<close>.  A predicate that raises ends the
  call with that exception; \<open>None\<close> is a call that does not return.
\<close>

definition classify_prime :: "int \<Rightarrow> int set \<Rightarrow> (pyerr + string) option" where
  "classify_prime n primes_set =
     (if is_mersenne_prime n then Some (Inr ''mersenne_prime'')
      else if is_factorial_prime n then Some (Inr ''factorial_prime'')
      else if is_wieferich_prime n then Some (Inr ''wieferich_prime'')
      else (case is_fibonacci_prime n of
        Inl err \<Rightarrow> Some (Inl err)
      | Inr True \<Rightarrow> Some (Inr ''fibonacci_prime'')
      | Inr False \<Rightarrow>
          if is_twin_prime n primes_set then Some (Inr ''twin_prime'')
          else if is_sexy_prime n primes_set then Some (Inr ''sexy_prime'')
          else if is_isolated_prime n primes_set then Some (Inr ''isolated_prime'')
          else if is_safe_prime n then Some (Inr ''safe_prime'')
          else if is_sophie_germain_prime n then Some (Inr ''sophie_germain_prime'')
          else (case is_chen_prime n of
            Inl err \<Rightarrow> Some (Inl err)
          | Inr True \<Rightarrow> Some (Inr ''chen_prime'')
          | Inr False \<Rightarrow>
              if is_palindromic_prime n then Some (Inr ''palindromic_prime'')
              else if is_circular_prime n then Some (Inr ''circular_prime'')
              else (case is_cuban_prime n of
                Inl err \<Rightarrow> Some (Inl err)
              | Inr True \<Rightarrow> Some (Inr ''cuban_prime'')
              | Inr False \<Rightarrow>
                  (case is_happy_prime n of
                     None \<Rightarrow> None
                   | Some (Inl err) \<Rightarrow> Some (Inl err)
                   | Some (Inr True) \<Rightarrow> Some (Inr ''happy_prime'')
                   | Some (Inr False) \<Rightarrow> Some (Inr ''regular_prime''))))))"

section \<open>image_generator.py: the grid pass and its statistics\<close>

definition calculate_dimensions :: "int \<Rightarrow> int \<Rightarrow> int \<Rightarrow> int \<Rightarrow> int \<times> int \<times> int" where
  "calculate_dimensions columns rows dot_size spacing =
     (columns * (dot_size + spacing) - spacing,
      rows * (dot_size + spacing) - spacing,
      columns * rows)"

text \<open>
  The loop \<open>for pos in range(total_positions)\<close> of \<open>create_prime_grid\<close>; the list
  \<open>prime_points\<close> is the accumulator.  \<open>pos % columns\<close> raises \<open>ZeroDivisionError\<close>
  for \<open>columns = 0\<close>.
\<close>

fun grid_loop :: "int \<Rightarrow> int set \<Rightarrow> int list \<Rightarrow> (int \<times> int \<times> string) list
    \<Rightarrow> (pyerr + (int \<times> int \<times> string) list) option" where
  "grid_loop columns primes_set [] prime_points = Some (Inr prime_points)"
| "grid_loop columns primes_set (pos # rest) prime_points =
     (if columns = 0 then Some (Inl ZeroDivisionError)
      else
        (let x = pos mod columns; y = pos div columns in
         if pos \<in> primes_set then
           (case classify_prime pos primes_set of
              None \<Rightarrow> None
            | Some (Inl err) \<Rightarrow> Some (Inl err)
            | Some (Inr prime_type) \<Rightarrow>
                grid_loop columns primes_set rest (prime_points @ [(x, y, prime_type)]))
         else grid_loop columns primes_set rest prime_points))"

definition create_prime_grid :: "int \<Rightarrow> int \<Rightarrow> int
    \<Rightarrow> (pyerr + (int \<times> int \<times> string) list) option" where
  "create_prime_grid total_positions columns rows =
     (case generate_primes_set total_positions of
        Inl err \<Rightarrow> Some (Inl err)
      | Inr primes_set \<Rightarrow> grid_loop columns primes_set (py_range 0 total_positions) [])"

record statistics =
  width :: int
  height :: int
  grid_columns :: int
  grid_rows :: int
  total_positions :: int
  total_primes :: int
  density :: double
  prime_types :: "string \<rightharpoonup> int"

definition count_type :: "(string \<rightharpoonup> int) \<Rightarrow> string \<Rightarrow> (string \<rightharpoonup> int)" where
  "count_type types prime_type =
     types(prime_type \<mapsto> (case types prime_type of None \<Rightarrow> 0 | Some c \<Rightarrow> c) + 1)"

definition generate_statistics :: "(int \<times> int \<times> string) list \<Rightarrow> int \<Rightarrow> int \<Rightarrow> int \<Rightarrow> int
    \<Rightarrow> pyerr + statistics" where
  "generate_statistics prime_points columns rows dot_size spacing =
     (case calculate_dimensions columns rows dot_size spacing of
        (w, h, total_pos) \<Rightarrow>
          (let types = fold (\<lambda>(x, y, prime_type) types. count_type types prime_type)
                         prime_points Map.empty in
           case py_truediv (int (length prime_points)) total_pos of
             Inl err \<Rightarrow> Inl err
           | Inr ratio \<Rightarrow>
               Inr \<lparr> width = w, height = h, grid_columns = columns, grid_rows = rows,
                     total_positions = total_pos, total_primes = int (length prime_points),
                     density = double_times_int ratio 100, prime_types = types \<rparr>))"

section \<open>Notions of the specification\<close>

text \<open>A prime is an integer above 1 without a divisor strictly between 1 and itself.\<close>

definition prime_int :: "int \<Rightarrow> bool" where
  "prime_int n = (1 < n \<and> (\<forall>d. 1 < d \<and> d < n \<longrightarrow> \<not> d dvd n))"

text \<open>A semiprime is a product of exactly two primes, which may be equal.\<close>

definition semiprime :: "int \<Rightarrow> bool" where
  "semiprime m = (\<exists>p q. prime_int p \<and> prime_int q \<and> m = p * q)"

text \<open>
  The ordered rule table of the specification: the fourteen families, in priority
  order, each with its predicate; \<open>spec_classify\<close> returns the label of the first rule
  whose predicate holds and \<open>regular_prime\<close> when none does.
\<close>

type_synonym rule = "string \<times> (int \<Rightarrow> int set \<Rightarrow> (pyerr + bool) option)"

definition spec_rule_table :: "rule list" where
  "spec_rule_table =
     [(''mersenne_prime'', \<lambda>n ps. Some (Inr (is_mersenne_prime n))),
      (''factorial_prime'', \<lambda>n ps. Some (Inr (is_factorial_prime n))),
      (''wieferich_prime'', \<lambda>n ps. Some (Inr (is_wieferich_prime n))),
      (''fibonacci_prime'', \<lambda>n ps. Some (is_fibonacci_prime n)),
      (''twin_prime'', \<lambda>n ps. Some (Inr (is_twin_prime n ps))),
      (''sexy_prime'', \<lambda>n ps. Some (Inr (is_sexy_prime n ps))),
      (''isolated_prime'', \<lambda>n ps. Some (Inr (is_isolated_prime n ps))),
      (''safe_prime'', \<lambda>n ps. Some (Inr (is_safe_prime n))),
      (''sophie_germain_prime'', \<lambda>n ps. Some (Inr (is_sophie_germain_prime n))),
      (''chen_prime'', \<lambda>n ps. Some (is_chen_prime n)),
      (''palindromic_prime'', \<lambda>n ps. Some (Inr (is_palindromic_prime n))),
      (''circular_prime'', \<lambda>n ps. Some (Inr (is_circular_prime n))),
      (''cuban_prime'', \<lambda>n ps. Some (is_cuban_prime n)),
      (''happy_prime'', \<lambda>n ps. is_happy_prime n)]"

fun first_match :: "rule list \<Rightarrow> int \<Rightarrow> int set \<Rightarrow> (pyerr + string) option" where
  "first_match [] n ps = Some (Inr ''regular_prime'')"
| "first_match ((label, pred) # rules) n ps =
     (case pred n ps of
        None \<Rightarrow> None
      | Some (Inl err) \<Rightarrow> Some (Inl err)
      | Some (Inr True) \<Rightarrow> Some (Inr label)
      | Some (Inr False) \<Rightarrow> first_match rules n ps)"

definition spec_classify :: "int \<Rightarrow> int set \<Rightarrow> (pyerr + string) option" where
  "spec_classify n ps = first_match spec_rule_table n ps"

text \<open>The primes up to 30, the set used in the examples of the specification.\<close>

definition primes_up_to_30 :: "int set" where
  "primes_up_to_30 = {2, 3, 5, 7, 11, 13, 17, 19, 23, 29}"

section \<open>Primality\<close>

text \<open>Elementary facts about \<open>prime_int\<close>, and the correctness of trial division.\<close>

lemma prime_int_ge2: "prime_int n \<Longrightarrow> 2 \<le> n"
  by (simp add: prime_int_def)

lemma not_prime_intI: "1 < d \<Longrightarrow> d < n \<Longrightarrow> d dvd n \<Longrightarrow> \<not> prime_int n"
  by (auto simp: prime_int_def)

lemma prime_int_2: "prime_int 2"
  by (auto simp: prime_int_def)

lemma prime_int_3: "prime_int 3"
proof -
  have "\<not> d dvd 3" if "1 < d" "d < 3" for d :: int
  proof -
    from that have "d = 2" by simp
    then show ?thesis by simp
  qed
  then show ?thesis by (simp add: prime_int_def)
qed

lemma dvd_int_le: "0 < n \<Longrightarrow> d dvd n \<Longrightarrow> d \<le> (n::int)"
  by (rule zdvd_imp_le)

lemma prime_divisor_exists: "2 \<le> n \<Longrightarrow> \<exists>p. prime_int p \<and> p dvd n"
proof (induction "nat n" arbitrary: n rule: less_induct)
  case less
  show ?case
  proof (cases "prime_int n")
    case True
    then show ?thesis by auto
  next
    case False
    with less.prems obtain d where d: "1 < d" "d < n" "d dvd n"
      by (auto simp: prime_int_def)
    then have "nat d < nat n" "2 \<le> d" by simp_all
    from less.hyps [OF this] obtain p where "prime_int p" "p dvd d" by blast
    with d(3) show ?thesis by (blast intro: dvd_trans)
  qed
qed

lemma small_prime_divisor:
  assumes "2 \<le> n" and "\<not> prime_int n"
  shows "\<exists>p. prime_int p \<and> p dvd n \<and> p * p \<le> n"
proof -
  from assms obtain d where d: "1 < d" "d < n" "d dvd n"
    by (auto simp: prime_int_def)
  then obtain e where e: "n = d * e" by (auto elim: dvdE)
  have e1: "1 < e"
  proof (rule ccontr)
    assume "\<not> 1 < e"
    then consider "e \<le> 0" | "e = 1" by fastforce
    then show False
    proof cases
      case 1
      with d(1) have "d * e \<le> 0" by (intro mult_nonneg_nonpos) auto
      with e assms(1) show False by simp
    next
      case 2
      with e d(2) show False by simp
    qed
  qed
  define m where "m = min d e"
  have m: "2 \<le> m" "m dvd n" "m * m \<le> n"
  proof -
    show "2 \<le> m" using d(1) e1 by (simp add: m_def)
    show "m dvd n" using e by (auto simp: m_def min_def)
    have "m * m \<le> d * e"
      using d(1) e1 by (intro mult_mono) (auto simp: m_def)
    then show "m * m \<le> n" by (simp add: e)
  qed
  from prime_divisor_exists [OF m(1)] obtain p where p: "prime_int p" "p dvd m" by blast
  have "p \<le> m" using p(2) m(1) by (intro zdvd_imp_le) auto
  moreover have "0 \<le> p" using prime_int_ge2 [OF p(1)] by simp
  ultimately have "p * p \<le> m * m" by (intro mult_mono) auto
  with m(3) have "p * p \<le> n" by simp
  moreover have "p dvd n" using p(2) m(2) by (rule dvd_trans)
  ultimately show ?thesis using p(1) by blast
qed

lemma prime_int_iff_small:
  "prime_int n \<longleftrightarrow> 2 \<le> n \<and> (\<forall>d. 2 \<le> d \<and> d * d \<le> n \<longrightarrow> \<not> d dvd n)"
proof
  assume p: "prime_int n"
  have "\<not> d dvd n" if "2 \<le> d" "d * d \<le> n" for d
  proof -
    have "d * 2 \<le> d * d" using that(1) by (intro mult_left_mono) auto
    with that have "d < n" by linarith
    with p that(1) show ?thesis by (simp add: prime_int_def)
  qed
  with p show "2 \<le> n \<and> (\<forall>d. 2 \<le> d \<and> d * d \<le> n \<longrightarrow> \<not> d dvd n)"
    by (auto dest: prime_int_ge2)
next
  assume a: "2 \<le> n \<and> (\<forall>d. 2 \<le> d \<and> d * d \<le> n \<longrightarrow> \<not> d dvd n)"
  show "prime_int n"
  proof (rule ccontr)
    assume "\<not> prime_int n"
    with a small_prime_divisor [of n] obtain p where "prime_int p" "p dvd n" "p * p \<le> n"
      by blast
    with a show False by (auto dest: prime_int_ge2)
  qed
qed

lemma is_prime_loop_correct:
  assumes "5 \<le> i" and "i mod 6 = 5" and "n mod 2 \<noteq> 0" and "n mod 3 \<noteq> 0" and "1 < n"
    and "\<forall>d. 2 \<le> d \<and> d < i \<longrightarrow> \<not> d dvd n"
  shows "is_prime_loop n i = prime_int n"
  using assms
proof (induction n i rule: is_prime_loop.induct)
  case (1 n i)
  show ?case
  proof (cases "i * i \<le> n")
    case False
    have "prime_int n"
      unfolding prime_int_iff_small
    proof (intro conjI allI impI)
      show "2 \<le> n" using "1.prems" by simp
    next
      fix d assume d: "2 \<le> d \<and> d * d \<le> n"
      have "d < i"
      proof (rule ccontr)
        assume "\<not> d < i"
        then have "i * i \<le> d * d" using "1.prems"(1) by (intro mult_mono) auto
        with d False show False by simp
      qed
      with d "1.prems"(6) show "\<not> d dvd n" by blast
    qed
    with False show ?thesis by (subst is_prime_loop.simps) simp
  next
    case True
    have i_lt: "i + 2 < n"
    proof -
      have "i * 5 \<le> i * i" using "1.prems"(1) by (intro mult_left_mono) auto
      with True "1.prems"(1) show ?thesis by linarith
    qed
    show ?thesis
    proof (cases "n mod i = 0 \<or> n mod (i + 2) = 0")
      case True
      then have "i dvd n \<or> (i + 2) dvd n" by auto
      moreover have "1 < i" "i < n" "1 < i + 2" "i + 2 < n"
        using i_lt "1.prems"(1) by simp_all
      ultimately have "\<not> prime_int n"
        using not_prime_intI [of i n] not_prime_intI [of "i + 2" n] by blast
      with True \<open>i * i \<le> n\<close> show ?thesis by (subst is_prime_loop.simps) simp
    next
      case False
      have nodiv: "\<not> 2 dvd n" "\<not> 3 dvd n"
        using "1.prems"(3,4) by presburger+
      have "\<not> d dvd n" if d: "2 \<le> d" "d < i + 6" for d
      proof (cases "d < i")
        case True
        with d "1.prems"(6) show ?thesis by blast
      next
        case False
        with d have "d = i \<or> d = i + 1 \<or> d = i + 2 \<or> d = i + 3 \<or> d = i + 4 \<or> d = i + 5"
          by arith
        moreover have "\<not> i dvd n" "\<not> (i + 2) dvd n"
          using \<open>\<not> (n mod i = 0 \<or> n mod (i + 2) = 0)\<close> by auto
        moreover have "2 dvd (i + 1)" "2 dvd (i + 3)" "3 dvd (i + 4)" "2 dvd (i + 5)"
          using "1.prems"(2) by presburger+
        then have "\<not> (i + 1) dvd n" "\<not> (i + 3) dvd n" "\<not> (i + 4) dvd n" "\<not> (i + 5) dvd n"
          using nodiv dvd_trans [of 2 _ n] dvd_trans [of 3 _ n] by blast+
        ultimately show ?thesis by blast
      qed
      then have nd: "\<forall>d. 2 \<le> d \<and> d < i + 6 \<longrightarrow> \<not> d dvd n" by blast
      have i5: "5 \<le> i + 6" using "1.prems"(1) by simp
      have i6: "(i + 6) mod 6 = 5" using "1.prems"(2) by presburger
      have "is_prime_loop n (i + 6) = prime_int n"
        by (rule "1.IH" [OF True False i5 i6 "1.prems"(3) "1.prems"(4) "1.prems"(5) nd])
      with True False show ?thesis by (subst is_prime_loop.simps) simp
    qed
  qed
qed

lemma is_prime_correct: "is_prime n = prime_int n"
proof -
  consider "n \<le> 1" | "n = 2" | "n = 3" | "3 < n" "n mod 2 = 0 \<or> n mod 3 = 0"
    | "3 < n" "n mod 2 \<noteq> 0" "n mod 3 \<noteq> 0"
    by fastforce
  then show ?thesis
  proof cases
    case 1
    then show ?thesis by (simp add: is_prime_def prime_int_def)
  next
    case 2
    then show ?thesis by (simp add: is_prime_def prime_int_2)
  next
    case 3
    then show ?thesis by (simp add: is_prime_def prime_int_3)
  next
    case 4
    then have "2 dvd n \<or> 3 dvd n" by auto
    then obtain d where "d dvd n" "1 < d" "d \<le> 3" by fastforce
    moreover from this 4(1) have "d < n" by simp
    ultimately have "\<not> prime_int n" using not_prime_intI [of d n] by blast
    with 4 show ?thesis by (simp add: is_prime_def)
  next
    case 5
    have nodiv: "\<not> 2 dvd n" "\<not> 3 dvd n" using 5 by presburger+
    have "\<not> d dvd n" if "2 \<le> d" "d < 5" for d
    proof -
      from that have "d = 2 \<or> d = 3 \<or> d = 4" by arith
      moreover have "\<not> 4 dvd n" using nodiv(1) dvd_trans [of 2 4 n] by auto
      ultimately show ?thesis using nodiv by blast
    qed
    then have "is_prime_loop n 5 = prime_int n"
      using 5 by (intro is_prime_loop_correct) auto
    with 5 show ?thesis by (simp add: is_prime_def)
  qed
qed

section \<open>Integer square roots and bit lengths\<close>

lemma isqrt_nonneg: "0 \<le> isqrt n"
proof (induction n rule: isqrt.induct)
  case (1 n)
  show ?case
  proof (cases "n < 4")
    case True
    then show ?thesis by (subst isqrt.simps) simp
  next
    case False
    then have "0 \<le> isqrt (n div 4)" by (intro "1.IH") auto
    with False show ?thesis by (subst isqrt.simps) (simp add: Let_def)
  qed
qed

lemma isqrt_bounds:
  "0 \<le> n \<Longrightarrow> isqrt n * isqrt n \<le> n \<and> n < (isqrt n + 1) * (isqrt n + 1)"
proof (induction n rule: isqrt.induct)
  case (1 n)
  consider "n < 1" | "1 \<le> n" "n < 4" | "4 \<le> n" by linarith
  then show ?case
  proof cases
    case 1
    with "1.prems" have "n = 0" by simp
    then show ?thesis by (subst (1 2 3 4) isqrt.simps) simp
  next
    case 2
    then have "isqrt n = 1" by (subst isqrt.simps) simp
    with 2 show ?thesis by simp
  next
    case 3
    define r0 where "r0 = isqrt (n div 4)"
    have ih: "r0 * r0 \<le> n div 4 \<and> n div 4 < (r0 + 1) * (r0 + 1)"
      unfolding r0_def using 3 by (intro "1.IH") auto
    have r0: "0 \<le> r0" unfolding r0_def by (rule isqrt_nonneg)
    have lo: "(2 * r0) * (2 * r0) \<le> n"
    proof -
      have "4 * (r0 * r0) \<le> 4 * (n div 4)" using ih by simp
      also have "\<dots> \<le> n" by simp
      finally show ?thesis by (simp add: algebra_simps)
    qed
    have hi: "n < (2 * r0 + 2) * (2 * r0 + 2)"
    proof -
      have "n div 4 + 1 \<le> (r0 + 1) * (r0 + 1)" using ih by simp
      then have "4 * (n div 4) + 4 \<le> 4 * ((r0 + 1) * (r0 + 1))" by simp
      moreover have "n < 4 * (n div 4) + 4"
        using div_mult_mod_eq [of n 4] pos_mod_bound [of 4 n] by linarith
      ultimately have "n < 4 * ((r0 + 1) * (r0 + 1))" by linarith
      then show ?thesis by (simp add: algebra_simps)
    qed
    have eq: "isqrt n = (if (2 * r0 + 1) * (2 * r0 + 1) \<le> n then 2 * r0 + 1 else 2 * r0)"
      using 3 by (subst isqrt.simps) (simp add: Let_def r0_def)
    show ?thesis
    proof (cases "(2 * r0 + 1) * (2 * r0 + 1) \<le> n")
      case True
      with eq have "isqrt n = 2 * r0 + 1" by simp
      with True hi show ?thesis by (simp add: algebra_simps)
    next
      case False
      with eq have "isqrt n = 2 * r0" by simp
      with False lo show ?thesis by (simp add: algebra_simps)
    qed
  qed
qed

lemma square_less_imp_less: "0 \<le> b \<Longrightarrow> a * a < b * b \<Longrightarrow> a < (b::int)"
proof (rule ccontr)
  assume b: "0 \<le> b" and lt: "a * a < b * b" and "\<not> a < b"
  then have "b \<le> a" by simp
  with b have "b * b \<le> a * a" by (intro mult_mono) auto
  with lt show False by simp
qed

lemma isqrt_ge: "0 \<le> a \<Longrightarrow> a * a \<le> n \<Longrightarrow> a \<le> isqrt n"
proof -
  assume a: "0 \<le> a" "a * a \<le> n"
  have "0 \<le> a * a" by simp
  with a have n: "0 \<le> n" by linarith
  have "a * a < (isqrt n + 1) * (isqrt n + 1)"
    using isqrt_bounds [OF n] a(2) by linarith
  moreover have "0 \<le> isqrt n + 1" using isqrt_nonneg [of n] by simp
  ultimately have "a < isqrt n + 1" by (rule square_less_imp_less [rotated])
  then show ?thesis by simp
qed

lemma isqrt_less: "0 \<le> b \<Longrightarrow> 0 \<le> n \<Longrightarrow> n < b * b \<Longrightarrow> isqrt n < b"
proof -
  assume b: "0 \<le> b" "0 \<le> n" "n < b * b"
  have "isqrt n * isqrt n < b * b" using isqrt_bounds [OF b(2)] b(3) by linarith
  then show ?thesis using b(1) by (rule square_less_imp_less [rotated])
qed

lemma isqrt_unique: "0 \<le> s \<Longrightarrow> s * s \<le> n \<Longrightarrow> n < (s + 1) * (s + 1) \<Longrightarrow> isqrt n = s"
proof -
  assume s: "0 \<le> s" "s * s \<le> n" "n < (s + 1) * (s + 1)"
  have "0 \<le> s * s" by simp
  with s have n: "0 \<le> n" by linarith
  have "s \<le> isqrt n" using s by (intro isqrt_ge)
  moreover have "isqrt n < s + 1" using s n by (intro isqrt_less) auto
  ultimately show ?thesis by simp
qed

lemma isqrt_mono: "0 \<le> a \<Longrightarrow> a \<le> b \<Longrightarrow> isqrt a \<le> isqrt b"
  using isqrt_bounds [of a] isqrt_ge [of "isqrt a" b] isqrt_nonneg [of a] by linarith

lemma bit_length_bounds: "0 < x \<Longrightarrow> 2 ^ (bit_length x - 1) \<le> x \<and> x < 2 ^ bit_length x"
proof (induction x rule: bit_length.induct)
  case (1 x)
  show ?case
  proof (cases "x = 1")
    case True
    have "bit_length 1 = 1" by (subst bit_length.simps, subst bit_length.simps) simp
    with True show ?thesis by simp
  next
    case False
    with "1.prems" have x2: "0 < x div 2" by simp
    have ih: "2 ^ (bit_length (x div 2) - 1) \<le> x div 2 \<and> x div 2 < 2 ^ bit_length (x div 2)"
      using "1.prems" x2 by (intro "1.IH") auto
    have pos: "0 < bit_length (x div 2)"
      using x2 by (subst bit_length.simps) simp
    have bl: "bit_length x = Suc (bit_length (x div 2))"
      using "1.prems" by (subst bit_length.simps) simp
    obtain k where k: "bit_length (x div 2) = Suc k" using pos by (cases "bit_length (x div 2)") auto
    have "2 * 2 ^ k \<le> 2 * (x div 2)" using ih k by simp
    also have "\<dots> \<le> x" by simp
    finally have lo: "2 ^ (bit_length x - 1) \<le> x" by (simp add: bl k)
    have "x div 2 + 1 \<le> 2 ^ bit_length (x div 2)" using ih by simp
    then have "2 * (x div 2) + 2 \<le> 2 * 2 ^ bit_length (x div 2)" by simp
    moreover have "x < 2 * (x div 2) + 2" by linarith
    ultimately have "x < 2 ^ bit_length x" by (simp add: bl)
    with lo show ?thesis by simp
  qed
qed

lemma bit_length_le: "0 \<le> x \<Longrightarrow> x < 2 ^ n \<Longrightarrow> bit_length x \<le> n"
proof (cases "x = 0")
  case True
  then show "bit_length x \<le> n" by (subst bit_length.simps) simp
next
  case False
  assume "0 \<le> x" "x < 2 ^ n"
  with False have "0 < x" by simp
  from bit_length_bounds [OF this] \<open>x < 2 ^ n\<close> have "(2::int) ^ (bit_length x - 1) < 2 ^ n" by linarith
  then have "bit_length x - 1 < n" by simp
  then show ?thesis by simp
qed

lemma bit_length_ge: "2 ^ n \<le> x \<Longrightarrow> n < bit_length x"
proof -
  assume a: "2 ^ n \<le> x"
  have "(0::int) < 2 ^ n" by simp
  with a have "0 < x" by linarith
  from bit_length_bounds [OF this] a have "(2::int) ^ n < 2 ^ bit_length x" by linarith
  then show ?thesis by simp
qed

lemma bit_length_eq: "2 ^ n \<le> x \<Longrightarrow> x < 2 ^ Suc n \<Longrightarrow> bit_length x = Suc n"
proof -
  assume a: "2 ^ n \<le> x" "x < 2 ^ Suc n"
  have "(0::int) < 2 ^ n" by simp
  with a(1) have "0 \<le> x" by linarith
  then show ?thesis using bit_length_ge [OF a(1)] bit_length_le [OF _ a(2)] by simp
qed

section \<open>The double-precision square root of an integer\<close>

text \<open>
  Rounding lemmas for \<open>dsqrt\<close>, and the outcome for \<open>math_sqrt\<close>: below \<open>2 ^ 100\<close>
  the truncated root is at least the integer square root and at most the argument.
\<close>

lemma four_power: "(4::int) ^ w = 2 ^ w * 2 ^ w"
proof -
  have "(4::int) = 2 * 2" by simp
  then show ?thesis by (simp only: power_mult_distrib)
qed

lemma scaled_square: "(a * 2 ^ w) * (a * 2 ^ w) = a * a * (4::int) ^ w"
  by (simp add: four_power algebra_simps)

lemma int_div_less: "0 < c \<Longrightarrow> a < b * c \<Longrightarrow> a div c < (b::int)"
proof -
  assume c: "0 < c" and ab: "a < b * c"
  have "a div c * c + a mod c = a" by (rule div_mult_mod_eq)
  moreover have "0 \<le> a mod c" using c by (rule pos_mod_sign)
  ultimately have "c * (a div c) \<le> a" unfolding mult.commute [of c] by linarith
  with ab have "c * (a div c) < c * b" by (simp add: mult.commute)
  with c show ?thesis by (simp add: mult_less_cancel_left_pos)
qed

lemma round_sqrt_div:
  fixes F :: int and w :: nat
  assumes F: "0 \<le> F"
  defines "X \<equiv> F * 4 ^ w"
  defines "S \<equiv> isqrt X"
  defines "S' \<equiv> (if X > S * S + S then S + 1 else S)"
  shows "isqrt F \<le> S' div 2 ^ w" and "S' div 2 ^ w \<le> isqrt F + 1"
proof -
  define s where "s = isqrt F"
  have s0: "0 \<le> s" unfolding s_def by (rule isqrt_nonneg)
  have sb: "s * s \<le> F" "F < (s + 1) * (s + 1)"
    using isqrt_bounds [OF F] by (simp_all add: s_def)
  have X0: "0 \<le> X" using F by (simp add: X_def)
  have "(s * 2 ^ w) * (s * 2 ^ w) \<le> X"
    unfolding scaled_square X_def using sb(1) by (intro mult_right_mono) auto
  then have lo: "s * 2 ^ w \<le> S"
    unfolding S_def using s0 by (intro isqrt_ge) auto
  have "F + 1 \<le> (s + 1) * (s + 1)" using sb(2) by simp
  then have "(F + 1) * 4 ^ w \<le> (s + 1) * (s + 1) * 4 ^ w"
    by (intro mult_right_mono) auto
  moreover have "X < (F + 1) * 4 ^ w" by (simp add: X_def algebra_simps)
  ultimately have "X < ((s + 1) * 2 ^ w) * ((s + 1) * 2 ^ w)"
    unfolding scaled_square by linarith
  then have hi: "S < (s + 1) * 2 ^ w"
    unfolding S_def using s0 X0 by (intro isqrt_less) auto
  have S': "S \<le> S'" "S' \<le> S + 1" by (simp_all add: S'_def)
  have "s * 2 ^ w \<le> S'" using lo S'(1) by simp
  then have "(s * 2 ^ w) div 2 ^ w \<le> S' div 2 ^ w" by (intro zdiv_mono1) auto
  then show "isqrt F \<le> S' div 2 ^ w" by (simp add: s_def)
  have "S' \<le> (s + 1) * 2 ^ w" using hi S'(2) by simp
  then have "S' div 2 ^ w \<le> ((s + 1) * 2 ^ w) div 2 ^ w" by (intro zdiv_mono1) auto
  then show "S' div 2 ^ w \<le> isqrt F + 1" by (simp add: s_def)
qed

lemma round_sqrt_exact:
  fixes F :: int and w :: nat
  assumes F: "0 \<le> F" and small: "isqrt F + 1 \<le> 2 ^ w"
  defines "X \<equiv> F * 4 ^ w"
  defines "S \<equiv> isqrt X"
  defines "S' \<equiv> (if X > S * S + S then S + 1 else S)"
  shows "S' div 2 ^ w = isqrt F"
proof -
  define s where "s = isqrt F"
  define B where "B = (s + 1) * 2 ^ w"
  have s0: "0 \<le> s" unfolding s_def by (rule isqrt_nonneg)
  have sb: "s * s \<le> F" "F < (s + 1) * (s + 1)"
    using isqrt_bounds [OF F] by (simp_all add: s_def)
  have X0: "0 \<le> X" using F by (simp add: X_def)
  have lower: "isqrt F \<le> S' div 2 ^ w"
    unfolding S'_def S_def X_def using F by (rule round_sqrt_div(1))
  have BB: "B * B = (s + 1) * (s + 1) * 4 ^ w" unfolding B_def by (rule scaled_square)
  have "F + 1 \<le> (s + 1) * (s + 1)" using sb(2) by simp
  then have "(F + 1) * 4 ^ w \<le> (s + 1) * (s + 1) * 4 ^ w"
    by (intro mult_right_mono) auto
  then have XB: "X + 4 ^ w \<le> B * B" by (simp add: BB X_def algebra_simps)
  have "(0::int) < 4 ^ w" by simp
  with XB have "X < B * B" by linarith
  moreover have B0: "0 \<le> B" using s0 by (simp add: B_def)
  ultimately have hi: "S < B" unfolding S_def using X0 by (intro isqrt_less) auto
  have "S' < B"
  proof (cases "S + 1 < B")
    case True
    then show ?thesis by (simp add: S'_def)
  next
    case False
    with hi have SB: "S = B - 1" by simp
    have "(s + 1) * 2 ^ w \<le> 2 ^ w * 2 ^ w"
      using small by (intro mult_right_mono) (auto simp: s_def)
    then have "B \<le> 4 ^ w" by (simp add: B_def four_power)
    with XB have "X \<le> B * B - B" by linarith
    also have "\<dots> = S * S + S" by (simp add: SB algebra_simps)
    finally have "S' = S" by (simp add: S'_def)
    with hi show ?thesis by simp
  qed
  then have "S' < (s + 1) * 2 ^ w" by (simp add: B_def)
  then have "S' div 2 ^ w < s + 1" by (intro int_div_less) auto
  with lower show ?thesis by (simp add: s_def)
qed

lemma round_sqrt_up:
  fixes F s P :: int and w :: nat
  assumes s: "1 \<le> s" and lt: "F < s * s" and ge: "s * s - P \<le> F" and P: "P * 2 ^ w < s"
    and F: "0 \<le> F"
  defines "X \<equiv> F * 4 ^ w"
  defines "S \<equiv> isqrt X"
  defines "S' \<equiv> (if X > S * S + S then S + 1 else S)"
  shows "s \<le> S' div 2 ^ w"
proof -
  define A where "A = s * 2 ^ w"
  have A1: "1 \<le> A"
  proof -
    have "(1::int) \<le> 2 ^ w" by simp
    with s have "1 * 1 \<le> s * 2 ^ w" by (intro mult_mono) auto
    then show ?thesis by (simp add: A_def)
  qed
  have AA: "A * A = s * s * 4 ^ w" unfolding A_def by (rule scaled_square)
  have X0: "0 \<le> X" using F by (simp add: X_def)
  have "(s * s - P) * 4 ^ w \<le> X"
    unfolding X_def using ge by (intro mult_right_mono) auto
  moreover have "P * 4 ^ w < A"
  proof -
    have "(P * 2 ^ w) * 2 ^ w < s * 2 ^ w" using P by (intro mult_strict_right_mono) auto
    then show ?thesis by (simp add: A_def four_power algebra_simps)
  qed
  ultimately have Xlo: "A * A - A < X" by (simp add: AA algebra_simps)
  have "(F + 1) * 4 ^ w \<le> s * s * 4 ^ w"
    using lt by (intro mult_right_mono) auto
  moreover have "X < (F + 1) * 4 ^ w" by (simp add: X_def algebra_simps)
  ultimately have Xhi: "X < A * A" unfolding AA by linarith
  have "isqrt X = A - 1"
  proof (rule isqrt_unique)
    show "0 \<le> A - 1" using A1 by simp
    have "(A - 1) * (A - 1) = A * A - A - A + 1" by (simp add: algebra_simps)
    with Xlo A1 show "(A - 1) * (A - 1) \<le> X" by linarith
    show "X < (A - 1 + 1) * (A - 1 + 1)" using Xhi by simp
  qed
  then have SA: "S = A - 1" by (simp add: S_def)
  have "S * S + S = A * A - A" by (simp add: SA algebra_simps)
  with Xlo have "S' = A" by (simp add: S'_def SA)
  then show ?thesis by (simp add: A_def)
qed

lemma float_of_int_small: "0 \<le> x \<Longrightarrow> x < 2 ^ 53 \<Longrightarrow> float_of_int x = Inr (Double x 0)"
  using bit_length_le [of x 53] by (simp add: float_of_int_def Let_def)

lemma float_of_int_large:
  assumes lo: "2 ^ 53 \<le> x" and hi: "x < 2 ^ 1023"
  shows "\<exists>m e. float_of_int x = Inr (Double m (int e)) \<and> 1 \<le> e \<and> 2 ^ (52 + e) \<le> x
            \<and> x < 2 ^ (53 + e) \<and> 2 ^ 52 \<le> m \<and> m \<le> 2 ^ 53
            \<and> 2 * x \<le> 2 * (m * 2 ^ e) + 2 ^ e \<and> 2 * (m * 2 ^ e) \<le> 2 * x + 2 ^ e"
proof -
  define b where "b = bit_length x"
  have "(0::int) < 2 ^ 53" by simp
  with lo have xpos: "0 < x" by linarith
  have b54: "53 < b" unfolding b_def using lo by (rule bit_length_ge)
  have b1023: "b \<le> 1023" unfolding b_def using xpos hi by (intro bit_length_le) auto
  define e where "e = b - 53"
  have be: "b = 53 + e" "1 \<le> e" using b54 by (simp_all add: e_def)
  have bb: "2 ^ (b - 1) \<le> x" "x < 2 ^ b"
    using bit_length_bounds [OF xpos] by (simp_all add: b_def)
  have xlo: "2 ^ (52 + e) \<le> x" using bb(1) be by simp
  have xhi: "x < 2 ^ (53 + e)" using bb(2) be by simp
  define q where "q = x div 2 ^ e"
  define r where "r = x mod 2 ^ e"
  have xqr: "x = q * 2 ^ e + r" unfolding q_def r_def by (rule div_mult_mod_eq [symmetric])
  have r0: "0 \<le> r" "r < 2 ^ e" by (simp_all add: r_def)
  have qlo: "2 ^ 52 \<le> q"
  proof -
    have "(2 ^ 52 * 2 ^ e) div 2 ^ e \<le> x div (2 ^ e :: int)"
      using xlo by (intro zdiv_mono1) (auto simp: power_add)
    then show ?thesis by (simp add: q_def)
  qed
  have qhi: "q < 2 ^ 53"
    unfolding q_def using xhi by (intro int_div_less) (auto simp: power_add)
  define q' where "q' = (if 2 * r > 2 ^ e \<or> (2 * r = 2 ^ e \<and> odd q) then q + 1 else q)"
  have q'cases: "(q' = q \<and> 2 * r \<le> 2 ^ e) \<or> (q' = q + 1 \<and> 2 ^ e \<le> 2 * r)"
    by (auto simp: q'_def)
  have q'lo: "2 ^ 52 \<le> q'" and q'hi: "q' \<le> 2 ^ 53"
    using q'cases qlo qhi by auto
  have "q' * 2 ^ e \<le> 2 ^ 53 * 2 ^ e" using q'hi by (intro mult_right_mono) auto
  also have "\<dots> = (2::int) ^ b" by (simp add: be power_add)
  also have "\<dots> \<le> 2 ^ 1023" using b1023 by (intro power_increasing) auto
  also have "\<dots> < (2::int) ^ 1024" by simp
  finally have noov: "\<not> 2 ^ 1024 \<le> q' * 2 ^ e" by simp
  have fl: "float_of_int x = Inr (Double q' (int e))"
  proof -
    have absx: "\<bar>x\<bar> = x" using xpos by simp
    have nb: "(bit_length x \<le> 53) = False" using b54 by (simp add: b_def)
    have sh: "bit_length x - 53 = e" by (simp add: e_def b_def)
    have sg: "sgn x = 1" using xpos by simp
    have no: "(2 ^ 1024 \<le> q' * 2 ^ e) = False" using noov by simp
    show ?thesis
      by (simp only: float_of_int_def Let_def absx nb if_False sh q_def [symmetric]
          r_def [symmetric] q'_def [symmetric] no sg mult_1)
  qed
  have err1: "2 * x \<le> 2 * (q' * 2 ^ e) + 2 ^ e"
    using q'cases r0 by (auto simp: xqr algebra_simps)
  have err2: "2 * (q' * 2 ^ e) \<le> 2 * x + 2 ^ e"
    using q'cases r0 by (auto simp: xqr algebra_simps)
  show ?thesis
    using fl be(2) xlo xhi q'lo q'hi err1 err2 by blast
qed

lemma dsqrt_scaled:
  fixes m :: int and e :: nat
  assumes m: "0 < m"
    and t: "int (e div 2) < (106 - int (bit_length (if even e then m else 2 * m))) div 2"
  defines "w \<equiv> nat ((106 - int (bit_length (if even e then m else 2 * m))) div 2 - int (e div 2))"
  defines "X \<equiv> m * 2 ^ e * 4 ^ w"
  shows "dsqrt (Double m (int e)) =
           Double (if X > isqrt X * isqrt X + isqrt X then isqrt X + 1 else isqrt X) (- int w)"
    and "0 < w"
proof -
  define m1 where "m1 = (if even e then m else 2 * m)"
  define tt where "tt = (106 - int (bit_length m1)) div 2"
  define k where "k = e div 2"
  have kt: "int k < tt" using t by (simp add: tt_def m1_def k_def)
  have w: "w = nat (tt - int k)" by (simp add: w_def tt_def m1_def k_def)
  show "0 < w" using kt by (simp add: w)
  have ntt: "nat tt = k + w" using kt by (simp add: w)
  have e1: "(if even e then int e else int e - 1) div 2 = int k"
    by (cases "even e") (auto simp: k_def elim!: evenE oddE)
  have m1e: "m1 * 4 ^ k = m * 2 ^ e"
  proof (cases "even e")
    case True
    then obtain j where "e = 2 * j" by (auto elim: evenE)
    then show ?thesis using True by (simp add: m1_def k_def power_mult)
  next
    case False
    then obtain j where "e = 2 * j + 1" by (auto elim: oddE)
    then show ?thesis using False by (simp add: m1_def k_def power_mult)
  qed
  have XX: "m1 * 4 ^ nat tt = X"
    by (simp add: ntt power_add X_def m1e [symmetric] algebra_simps)
  have ex: "(if even e then int e else int e - 1) div 2 - tt = - int w"
    using kt by (simp add: e1 w)
  have nm: "(m \<le> 0) = False" using m by simp
  show "dsqrt (Double m (int e)) =
           Double (if X > isqrt X * isqrt X + isqrt X then isqrt X + 1 else isqrt X) (- int w)"
  proof (cases "even e")
    case True
    have ev: "even (int e) = True" using True by simp
    have a: "m * 4 ^ nat ((106 - int (bit_length m)) div 2) = X"
      using XX True by (simp add: m1_def tt_def)
    have b: "int e div 2 - (106 - int (bit_length m)) div 2 = - int w"
      using ex True by (simp add: tt_def m1_def)
    show ?thesis
      by (simp only: dsqrt_def double.case Let_def nm if_False ev if_True a b)
  next
    case False
    have ev: "even (int e) = False" using False by simp
    have a: "2 * m * 4 ^ nat ((106 - int (bit_length (2 * m))) div 2) = X"
      using XX False by (simp add: m1_def tt_def)
    have b: "(int e - 1) div 2 - (106 - int (bit_length (2 * m))) div 2 = - int w"
      using ex False by (simp add: tt_def m1_def)
    show ?thesis
      by (simp only: dsqrt_def double.case Let_def nm if_False ev if_True a b)
  qed
qed

lemma int_of_double_neg_exp:
  "0 \<le> m \<Longrightarrow> 0 < w \<Longrightarrow> int_of_double (Double m (- int w)) = m div 2 ^ w"
  by (simp add: int_of_double_def)

lemma rounded_nonneg: "0 \<le> (if X > isqrt X * isqrt X + isqrt X then isqrt X + 1 else isqrt X)"
  using isqrt_nonneg [of X] by simp

lemma isqrt_le_self: "0 \<le> x \<Longrightarrow> isqrt x \<le> x"
proof -
  assume x: "0 \<le> x"
  have "isqrt x * 1 \<le> isqrt x * isqrt x \<or> isqrt x = 0"
    using isqrt_nonneg [of x] by (cases "isqrt x = 0") (auto intro!: mult_left_mono)
  then show ?thesis using isqrt_bounds [OF x] x by auto
qed

lemma isqrt_succ_le_self: "2 \<le> x \<Longrightarrow> isqrt x + 1 \<le> x"
proof -
  assume x: "2 \<le> x"
  then have x0: "0 \<le> x" by simp
  have s1: "1 \<le> isqrt x" using x by (intro isqrt_ge) auto
  show ?thesis
  proof (cases "isqrt x = 1")
    case True
    with x show ?thesis by simp
  next
    case False
    with s1 have s2: "2 \<le> isqrt x" by simp
    then have "isqrt x * 2 \<le> isqrt x * isqrt x" by (intro mult_left_mono) auto
    with isqrt_bounds [OF x0] s2 show ?thesis by linarith
  qed
qed

lemma math_sqrt_small:
  assumes x0: "0 < x" and x53: "x < 2 ^ 53"
  shows "\<exists>root. math_sqrt x = Inr root \<and> isqrt x \<le> int_of_double root
           \<and> int_of_double root \<le> isqrt x + 1
           \<and> (x < 2 ^ 52 \<longrightarrow> int_of_double root = isqrt x)"
proof -
  have fl: "float_of_int x = Inr (Double x 0)" using x0 x53 by (intro float_of_int_small) auto
  have bl: "bit_length x \<le> 53" using x0 x53 by (intro bit_length_le) auto
  define w where "w = nat ((106 - int (bit_length x)) div 2)"
  define X where "X = x * 4 ^ w"
  define S' where "S' = (if X > isqrt X * isqrt X + isqrt X then isqrt X + 1 else isqrt X)"
  have t: "int ((0::nat) div 2) < (106 - int (bit_length (if even (0::nat) then x else 2 * x))) div 2"
    using bl by simp
  have ds: "dsqrt (Double x (int 0)) = Double S' (- int w)" and w0: "0 < w"
    using dsqrt_scaled [OF x0 t] by (simp_all add: S'_def X_def w_def)
  have ms: "math_sqrt x = Inr (Double S' (- int w))"
    using fl x0 ds by (simp add: math_sqrt_def)
  have S'0: "0 \<le> S'" unfolding S'_def by (rule rounded_nonneg)
  have iod: "int_of_double (Double S' (- int w)) = S' div 2 ^ w"
    using S'0 w0 by (rule int_of_double_neg_exp)
  have x0': "0 \<le> x" using x0 by simp
  have lo: "isqrt x \<le> S' div 2 ^ w" and hi: "S' div 2 ^ w \<le> isqrt x + 1"
    unfolding S'_def X_def using round_sqrt_div [OF x0', of w] by simp_all
  have ex: "S' div 2 ^ w = isqrt x" if x52: "x < 2 ^ 52"
  proof -
    have "bit_length x \<le> 52" using x0 x52 by (intro bit_length_le) auto
    then have w27: "27 \<le> w" by (simp add: w_def)
    have "isqrt x < 2 ^ 26" using x0' x52 by (intro isqrt_less) auto
    then have "isqrt x + 1 \<le> 2 ^ 26" by simp
    also have "(2::int) ^ 26 \<le> 2 ^ w" using w27 by (intro power_increasing) auto
    finally have sm: "isqrt x + 1 \<le> 2 ^ w" .
    show ?thesis unfolding S'_def X_def using x0' sm by (rule round_sqrt_exact)
  qed
  show ?thesis using ms iod lo hi ex by auto
qed

lemma math_sqrt_large:
  assumes lo53: "2 ^ 53 \<le> x" and hi100: "x < 2 ^ 100"
  shows "\<exists>root. math_sqrt x = Inr root \<and> isqrt x \<le> int_of_double root
           \<and> int_of_double root \<le> x"
proof -
  have hi1023: "x < 2 ^ 1023"
  proof -
    have "(2::int) ^ 100 \<le> 2 ^ 1023" by (intro power_increasing) auto
    with hi100 show ?thesis by linarith
  qed
  have "(0::int) < 2 ^ 53" by simp
  with lo53 have xpos: "0 < x" by linarith
  from float_of_int_large [OF lo53 hi1023] obtain m e where
    fl: "float_of_int x = Inr (Double m (int e))" and e1: "1 \<le> e"
    and xlo: "2 ^ (52 + e) \<le> x" and xhi: "x < 2 ^ (53 + e)"
    and mlo: "2 ^ 52 \<le> m" and mhi: "m \<le> 2 ^ 53"
    and err1: "2 * x \<le> 2 * (m * 2 ^ e) + 2 ^ e" and err2: "2 * (m * 2 ^ e) \<le> 2 * x + 2 ^ e"
    by blast
  have "(0::int) < 2 ^ 52" by simp
  with mlo have mpos: "0 < m" by linarith
  have e47: "e \<le> 47"
  proof -
    have lt: "(2::int) ^ (52 + e) < 2 ^ 100" using xlo hi100 by linarith
    have "(1::int) < 2" by simp
    from power_less_imp_less_exp [OF this lt] show ?thesis by simp
  qed
  define F where "F = m * 2 ^ e"
  have F0: "0 \<le> F" using mpos by (simp add: F_def)
  define m1 where "m1 = (if even e then m else 2 * m)"
  have blm1: "bit_length m1 \<le> 55"
  proof -
    have "m1 \<le> 2 * m" using mpos by (simp add: m1_def)
    with mhi have "m1 < 2 ^ 55" by simp
    moreover have "0 \<le> m1" using mpos by (simp add: m1_def)
    ultimately show ?thesis by (intro bit_length_le)
  qed
  have t: "int (e div 2) < (106 - int (bit_length (if even e then m else 2 * m))) div 2"
    using blm1 e47 unfolding m1_def by linarith
  define w where "w = nat ((106 - int (bit_length m1)) div 2 - int (e div 2))"
  define X where "X = F * 4 ^ w"
  define S' where "S' = (if X > isqrt X * isqrt X + isqrt X then isqrt X + 1 else isqrt X)"
  have ds: "dsqrt (Double m (int e)) = Double S' (- int w)" and w0: "0 < w"
    using dsqrt_scaled [OF mpos t] by (simp_all add: S'_def X_def w_def m1_def F_def)
  have ms: "math_sqrt x = Inr (Double S' (- int w))"
    using fl mpos ds by (simp add: math_sqrt_def)
  have S'0: "0 \<le> S'" unfolding S'_def by (rule rounded_nonneg)
  have iod: "int_of_double (Double S' (- int w)) = S' div 2 ^ w"
    using S'0 w0 by (rule int_of_double_neg_exp)
  have rlo: "isqrt F \<le> S' div 2 ^ w" and rhi: "S' div 2 ^ w \<le> isqrt F + 1"
    unfolding S'_def X_def using round_sqrt_div [OF F0, of w] by simp_all
  define s where "s = isqrt x"
  have x0: "0 \<le> x" using xpos by simp
  have sb: "s * s \<le> x" "x < (s + 1) * (s + 1)" using isqrt_bounds [OF x0] by (simp_all add: s_def)
  have s0: "0 \<le> s" unfolding s_def by (rule isqrt_nonneg)
  \<comment> \<open>upper bound\<close>
  have upper: "S' div 2 ^ w \<le> x"
  proof -
    have "(1::int) \<le> 2 ^ e" by simp
    moreover have "(2::int) ^ e \<le> 2 ^ (52 + e)" by (intro power_increasing) auto
    ultimately have "F \<le> 2 * x" using err2 xlo xpos unfolding F_def by linarith
    then have "isqrt F \<le> isqrt (2 * x)" using F0 by (intro isqrt_mono)
    moreover have "isqrt (2 * x) + 1 \<le> x"
    proof (rule ccontr)
      assume "\<not> isqrt (2 * x) + 1 \<le> x"
      then have ge: "x \<le> isqrt (2 * x)" by simp
      then have "x * x \<le> isqrt (2 * x) * isqrt (2 * x)" using x0 by (intro mult_mono) auto
      also have "\<dots> \<le> 2 * x" using isqrt_bounds [of "2 * x"] x0 by simp
      finally have "x * x \<le> x * 2" by (simp add: mult.commute)
      then have "x \<le> 2" using xpos by (simp add: mult_le_cancel_left_pos)
      moreover have "(2::int) < 2 ^ 53" by simp
      ultimately show False using lo53 by linarith
    qed
    ultimately show ?thesis using rhi by linarith
  qed
  \<comment> \<open>lower bound\<close>
  have lower: "s \<le> S' div 2 ^ w"
  proof (cases "s * s \<le> F")
    case True
    then have "s \<le> isqrt F" using s0 by (intro isqrt_ge)
    with rlo show ?thesis by simp
  next
    case False
    then have Flt: "F < s * s" by simp
    have m53: "m < 2 ^ 53"
    proof (rule ccontr)
      assume "\<not> m < 2 ^ 53"
      with mhi have "m = 2 ^ 53" by simp
      then have "F = 2 ^ (53 + e)" by (simp add: F_def power_add)
      with xhi sb(1) Flt show False by linarith
    qed
    have blm: "bit_length m = 53"
      using mlo m53 by (intro bit_length_eq [of 52 m, simplified]) auto
    have blm1': "bit_length m1 = (if even e then 53 else 54)"
    proof (cases "even e")
      case True
      then show ?thesis by (simp add: m1_def blm)
    next
      case False
      have "bit_length (2 * m) = 54"
        using mlo m53 by (intro bit_length_eq [of 53 "2 * m", simplified]) auto
      with False show ?thesis by (simp add: m1_def)
    qed
    define j where "j = e div 2"
    have j23: "j \<le> 23" using e47 by (simp add: j_def)
    have wj: "w = 26 - j" using j23 by (auto simp: w_def blm1' j_def)
    define P :: int where "P = 2 ^ (e - 1)"
    have P2: "2 * P = 2 ^ e"
    proof -
      obtain e' where "e = Suc e'" using e1 by (cases e) auto
      then show ?thesis by (simp add: P_def)
    qed
    have ge: "s * s - P \<le> F"
      using err1 sb(1) P2 unfolding F_def by linarith
    define Q :: int where "Q = 2 ^ (26 + j)"
    have QQ: "Q * Q = 2 ^ (52 + 2 * j)"
    proof -
      have "Q * Q = 2 ^ ((26 + j) + (26 + j))" unfolding Q_def by (simp only: power_add)
      moreover have "(26 + j) + (26 + j) = 52 + 2 * j" by simp
      ultimately show ?thesis by simp
    qed
    have Q0: "0 \<le> Q" by (simp add: Q_def)
    have Qbig: "3 \<le> Q"
    proof -
      have "(2::int) ^ 2 \<le> 2 ^ (26 + j)" by (intro power_increasing) auto
      then show ?thesis by (simp add: Q_def)
    qed
    have Pw: "P * 2 ^ w < s"
    proof (cases "even e")
      case True
      then have e2j: "e = 2 * j" by (auto simp: j_def elim: evenE)
      have "Q * Q \<le> x" using xlo by (simp add: QQ e2j)
      then have Qs: "Q \<le> s" unfolding s_def using Q0 by (intro isqrt_ge)
      have "e - 1 + w = 25 + j" using e1 j23 by (simp add: wj e2j)
      then have "P * 2 ^ w = 2 ^ (25 + j)" by (simp add: P_def power_add [symmetric])
      also have "\<dots> < Q" by (simp add: Q_def)
      finally show ?thesis using Qs by simp
    next
      case False
      then have e2j: "e = 2 * j + 1" by (auto simp: j_def elim: oddE)
      have q3: "Q * 3 \<le> Q * Q" using Qbig by (intro mult_left_mono) auto
      have "(Q + 1) * (Q + 1) = Q * Q + 2 * Q + 1" by (simp add: algebra_simps)
      with q3 Qbig have "(Q + 1) * (Q + 1) \<le> 2 * (Q * Q)" by linarith
      moreover have eq: "52 + e = 1 + (52 + 2 * j)" by (simp add: e2j)
      have "2 * (Q * Q) = 2 ^ (52 + e)" by (simp only: eq QQ power_add power_one_right)
      ultimately have "(Q + 1) * (Q + 1) \<le> x" using xlo by linarith
      then have Qs: "Q + 1 \<le> s" unfolding s_def using Q0 by (intro isqrt_ge) auto
      have "e - 1 + w = 26 + j" using j23 by (simp add: wj e2j)
      then have "P * 2 ^ w = Q" by (simp add: P_def Q_def power_add [symmetric])
      then show ?thesis using Qs by simp
    qed
    have "0 \<le> P * 2 ^ w" by (simp add: P_def)
    with Pw have s1: "1 \<le> s" by linarith
    show ?thesis unfolding S'_def X_def
      using s1 Flt ge Pw F0 by (rule round_sqrt_up)
  qed
  show ?thesis using ms iod lower upper by (auto simp: s_def)
qed

lemma math_sqrt_zero: "math_sqrt 0 = Inr (Double 0 0)"
proof -
  have "float_of_int 0 = Inr (Double 0 0)" using float_of_int_small [of 0] by simp
  then show ?thesis by (simp add: math_sqrt_def dsqrt_def)
qed

lemma math_sqrt_int:
  assumes "0 \<le> x" and "x < 2 ^ 100"
  shows "\<exists>root. math_sqrt x = Inr root \<and> isqrt x \<le> int_of_double root
           \<and> int_of_double root \<le> x"
proof -
  consider "x = 0" | "0 < x" "x < 2 ^ 53" | "2 ^ 53 \<le> x" using assms(1) by linarith
  then show ?thesis
  proof cases
    case 1
    have "isqrt 0 = 0" by (subst isqrt.simps) simp
    with 1 show ?thesis by (simp add: math_sqrt_zero int_of_double_def)
  next
    case 2
    from math_sqrt_small [OF 2] obtain root where
      r: "math_sqrt x = Inr root" "isqrt x \<le> int_of_double root"
        "int_of_double root \<le> isqrt x + 1" "x < 2 ^ 52 \<longrightarrow> int_of_double root = isqrt x"
      by blast
    have "int_of_double root \<le> x"
    proof (cases "x < 2")
      case True
      with 2 r(4) have "int_of_double root = isqrt x" by simp
      with isqrt_le_self [of x] 2 show ?thesis by simp
    next
      case False
      then have "isqrt x + 1 \<le> x" by (intro isqrt_succ_le_self) auto
      with r(3) show ?thesis by simp
    qed
    with r show ?thesis by blast
  next
    case 3
    with assms(2) show ?thesis by (intro math_sqrt_large)
  qed
qed

section \<open>Correctness of the sieve\<close>

lemma int_le_div: "0 < c \<Longrightarrow> b * c \<le> a \<Longrightarrow> b \<le> a div (c::int)"
proof -
  assume c: "0 < c" and ba: "b * c \<le> a"
  then have "(b * c) div c \<le> a div c" by (intro zdiv_mono1)
  with c show ?thesis by simp
qed

lemma range_step_index:
  fixes a b s :: int and k :: nat
  assumes s: "0 < s"
  shows "int k < (b - a + s - 1) div s \<longleftrightarrow> a + int k * s < b"
proof
  assume "int k < (b - a + s - 1) div s"
  then have "int k + 1 \<le> (b - a + s - 1) div s" by simp
  then have "(int k + 1) * s \<le> ((b - a + s - 1) div s) * s"
    using s by (intro mult_right_mono) auto
  also have "\<dots> \<le> b - a + s - 1"
  proof -
    have "(b - a + s - 1) div s * s + (b - a + s - 1) mod s = b - a + s - 1"
      by (rule div_mult_mod_eq)
    moreover have "0 \<le> (b - a + s - 1) mod s" using s by (rule pos_mod_sign)
    ultimately show ?thesis by linarith
  qed
  finally show "a + int k * s < b" by (simp add: algebra_simps)
next
  assume "a + int k * s < b"
  then have "(int k + 1) * s \<le> b - a + s - 1" by (simp add: algebra_simps)
  with s have "int k + 1 \<le> (b - a + s - 1) div s" by (intro int_le_div)
  then show "int k < (b - a + s - 1) div s" by simp
qed

lemma set_py_range_step:
  assumes s: "0 < s"
  shows "set (py_range_step a b s) = {j. a \<le> j \<and> j < b \<and> s dvd (j - a)}"
proof (intro set_eqI iffI)
  fix j assume "j \<in> set (py_range_step a b s)"
  then have "j \<in> (\<lambda>k. a + int k * s) ` {0..<nat ((b - a + s - 1) div s)}"
    by (simp only: py_range_step_def set_map set_upt)
  then obtain k where k: "j = a + int k * s" "k < nat ((b - a + s - 1) div s)"
    by (elim imageE) (simp only: atLeastLessThan_iff)
  from k(2) have "int k < (b - a + s - 1) div s" by simp
  with range_step_index [OF s] k(1) have "j < b" by simp
  moreover have "a \<le> j" using s by (simp add: k(1))
  moreover have "s dvd (j - a)" by (simp add: k(1))
  ultimately show "j \<in> {j. a \<le> j \<and> j < b \<and> s dvd (j - a)}" by simp
next
  fix j assume "j \<in> {j. a \<le> j \<and> j < b \<and> s dvd (j - a)}"
  then have j: "a \<le> j" "j < b" "s dvd (j - a)" by simp_all
  from j(3) obtain c where c: "j - a = s * c" by (auto elim: dvdE)
  have c0: "0 \<le> c"
  proof (rule ccontr)
    assume "\<not> 0 \<le> c"
    then have "c \<le> - 1" by simp
    with s have "s * c \<le> s * (- 1)" by (intro mult_left_mono) auto
    with c j(1) s show False by simp
  qed
  define k where "k = nat c"
  have jk: "j = a + int k * s" using c c0 by (simp add: k_def algebra_simps)
  with j(2) have "a + int k * s < b" by simp
  with range_step_index [OF s] have "int k < (b - a + s - 1) div s" by simp
  then have "k < nat ((b - a + s - 1) div s)" by simp
  then have "k \<in> {0..<nat ((b - a + s - 1) div s)}" by simp
  then have "a + int k * s \<in> (\<lambda>k. a + int k * s) ` {0..<nat ((b - a + s - 1) div s)}"
    by (rule imageI)
  with jk show "j \<in> set (py_range_step a b s)"
    by (simp only: py_range_step_def set_map set_upt)
qed

lemma fold_clear_length [simp]:
  "length (fold (\<lambda>j sv. sv[nat j := False]) js sv) = length sv"
  by (induction js arbitrary: sv) auto

lemma fold_clear_nth:
  "n < length sv \<Longrightarrow>
   fold (\<lambda>j sv. sv[nat j := False]) js sv ! n = (sv ! n \<and> n \<notin> nat ` set js)"
proof (induction js arbitrary: sv)
  case Nil
  then show ?case by simp
next
  case (Cons j js)
  have "fold (\<lambda>j sv. sv[nat j := False]) (j # js) sv ! n
        = (sv[nat j := False] ! n \<and> n \<notin> nat ` set js)"
    using Cons.IH [of "sv[nat j := False]"] Cons.prems by simp
  moreover have "sv[nat j := False] ! n = (sv ! n \<and> n \<noteq> nat j)"
    using Cons.prems by (cases "n = nat j") simp_all
  ultimately show ?case by auto
qed

lemma sieve_inner_length [simp]: "length (sieve_inner limit i sv) = length sv"
  by (simp add: sieve_inner_def)

lemma sieve_inner_nth:
  assumes i: "2 \<le> i" and n: "n < length sv"
  shows "sieve_inner limit i sv ! n
         = (sv ! n \<and> \<not> (i * i \<le> int n \<and> int n \<le> limit \<and> i dvd int n))"
proof -
  have ipos: "0 < i" using i by simp
  have "n \<in> nat ` set (py_range_step (i * i) (limit + 1) i)
        \<longleftrightarrow> (i * i \<le> int n \<and> int n \<le> limit \<and> i dvd int n)"
  proof
    assume "n \<in> nat ` set (py_range_step (i * i) (limit + 1) i)"
    then obtain j where j: "n = nat j" "i * i \<le> j" "j < limit + 1" "i dvd (j - i * i)"
      by (auto simp: set_py_range_step [OF ipos])
    have "0 \<le> i * i" by simp
    with j(2) have "0 \<le> j" by linarith
    with j(1) have jn: "j = int n" by simp
    have "i dvd j" using j(4) by (simp add: dvd_diff_left_iff dvd_diff_right_iff)
    with j jn show "i * i \<le> int n \<and> int n \<le> limit \<and> i dvd int n" by simp
  next
    assume a: "i * i \<le> int n \<and> int n \<le> limit \<and> i dvd int n"
    then have "i dvd (int n - i * i)" by simp
    with a have "int n \<in> set (py_range_step (i * i) (limit + 1) i)"
      by (simp add: set_py_range_step [OF ipos])
    then have "nat (int n) \<in> nat ` set (py_range_step (i * i) (limit + 1) i)"
      by (rule imageI)
    then show "n \<in> nat ` set (py_range_step (i * i) (limit + 1) i)" by simp
  qed
  with fold_clear_nth [OF n] show ?thesis by (simp add: sieve_inner_def)
qed

lemma prime_int_iff_prime_small:
  assumes n: "2 \<le> n"
  shows "prime_int n \<longleftrightarrow> (\<forall>p. prime_int p \<and> p * p \<le> n \<longrightarrow> \<not> p dvd n)"
proof
  assume pn: "prime_int n"
  show "\<forall>p. prime_int p \<and> p * p \<le> n \<longrightarrow> \<not> p dvd n"
  proof (intro allI impI)
    fix p assume p: "prime_int p \<and> p * p \<le> n"
    then have p2: "2 \<le> p" by (auto dest: prime_int_ge2)
    with p show "\<not> p dvd n" using pn by (auto simp: prime_int_iff_small)
  qed
next
  assume a: "\<forall>p. prime_int p \<and> p * p \<le> n \<longrightarrow> \<not> p dvd n"
  show "prime_int n"
  proof (rule ccontr)
    assume "\<not> prime_int n"
    from small_prime_divisor [OF n this] a show False by blast
  qed
qed

lemma prime_small_less: "prime_int p \<Longrightarrow> p * p \<le> a \<Longrightarrow> p < a"
proof -
  assume p: "prime_int p" and pa: "p * p \<le> a"
  then have "2 \<le> p" by (auto dest: prime_int_ge2)
  then have "p * 2 \<le> p * p" by (intro mult_left_mono) auto
  with pa \<open>2 \<le> p\<close> show ?thesis by linarith
qed

lemma sieve_outer_correct:
  assumes len: "length sv = nat (limit + 1)" and a2: "2 \<le> a" and bl: "b \<le> limit"
    and inv: "\<forall>n<length sv. sv ! n
        = (2 \<le> int n \<and> (\<forall>p. prime_int p \<and> p < a \<and> p * p \<le> int n \<longrightarrow> \<not> p dvd int n))"
  shows "\<exists>sv'. sieve_outer limit [a..b] sv = Inr sv' \<and> length sv' = length sv
          \<and> (\<forall>n<length sv'. sv' ! n
                = (2 \<le> int n \<and> (\<forall>p. prime_int p \<and> p < max a (b + 1) \<and> p * p \<le> int n
                      \<longrightarrow> \<not> p dvd int n)))"
  using len a2 inv
proof (induction "nat (b + 1 - a)" arbitrary: a sv)
  case 0
  then have "b < a" by simp
  then have "[a..b] = []" and "max a (b + 1) = a" by simp_all
  with "0.prems" show ?case by simp
next
  case (Suc k)
  then have ab: "a \<le> b" by simp
  then have ups: "[a..b] = a # [a + 1..b]" by (simp add: upto_rec1)
  have ilen: "int (length sv) = limit + 1" using Suc.prems(1,2) ab bl by simp
  have alt: "a < int (length sv)" using ab bl ilen by simp
  have nata: "nat a < length sv" using alt Suc.prems(2) by simp
  have pa: "sv ! nat a = prime_int a"
  proof -
    have e: "int (nat a) = a" using Suc.prems(2) by simp
    have "sv ! nat a = (2 \<le> a \<and> (\<forall>p. prime_int p \<and> p < a \<and> p * p \<le> a \<longrightarrow> \<not> p dvd a))"
      using Suc.prems(3) [rule_format, OF nata] unfolding e .
    also have "\<dots> = (\<forall>p. prime_int p \<and> p * p \<le> a \<longrightarrow> \<not> p dvd a)"
      using Suc.prems(2) prime_small_less [of _ a] by blast
    also have "\<dots> = prime_int a"
      using prime_int_iff_prime_small [OF Suc.prems(2)] by simp
    finally show ?thesis .
  qed
  define sv1 where "sv1 = (if sv ! nat a then sieve_inner limit a sv else sv)"
  have step: "sieve_outer limit [a..b] sv = sieve_outer limit [a + 1..b] sv1"
    using alt by (simp add: ups sv1_def)
  have len1: "length sv1 = nat (limit + 1)"
    using Suc.prems(1) by (cases "sv ! nat a") (simp_all add: sv1_def)
  have inv1: "\<forall>n<length sv1. sv1 ! n
        = (2 \<le> int n \<and> (\<forall>p. prime_int p \<and> p < a + 1 \<and> p * p \<le> int n \<longrightarrow> \<not> p dvd int n))"
  proof (intro allI impI)
    fix n assume n: "n < length sv1"
    moreover have "length sv1 = length sv" by (cases "sv ! nat a") (simp_all add: sv1_def)
    ultimately have n': "n < length sv" by simp
    have nlim: "int n \<le> limit" using n' ilen by simp
    have old: "sv ! n
        = (2 \<le> int n \<and> (\<forall>p. prime_int p \<and> p < a \<and> p * p \<le> int n \<longrightarrow> \<not> p dvd int n))"
      using Suc.prems(3) [rule_format, OF n'] .
    show "sv1 ! n
        = (2 \<le> int n \<and> (\<forall>p. prime_int p \<and> p < a + 1 \<and> p * p \<le> int n \<longrightarrow> \<not> p dvd int n))"
    proof (cases "prime_int a")
      case True
      then have "sv1 ! n = (sv ! n \<and> \<not> (a * a \<le> int n \<and> int n \<le> limit \<and> a dvd int n))"
        using pa sieve_inner_nth [OF Suc.prems(2) n'] by (simp add: sv1_def)
      also have "\<dots> = (2 \<le> int n
          \<and> (\<forall>p. prime_int p \<and> p < a \<and> p * p \<le> int n \<longrightarrow> \<not> p dvd int n)
          \<and> (a * a \<le> int n \<longrightarrow> \<not> a dvd int n))"
        using old nlim by auto
      also have "\<dots> = (2 \<le> int n
          \<and> (\<forall>p. prime_int p \<and> p < a + 1 \<and> p * p \<le> int n \<longrightarrow> \<not> p dvd int n))"
      proof -
        have "p < a + 1 \<longleftrightarrow> p < a \<or> p = a" for p by auto
        then show ?thesis using True by blast
      qed
      finally show ?thesis .
    next
      case False
      then have "sv1 ! n = sv ! n" using pa by (simp add: sv1_def)
      also have "\<dots> = (2 \<le> int n
          \<and> (\<forall>p. prime_int p \<and> p < a + 1 \<and> p * p \<le> int n \<longrightarrow> \<not> p dvd int n))"
      proof -
        have "prime_int p \<and> p < a + 1 \<longleftrightarrow> prime_int p \<and> p < a" for p
          using False by (cases "p = a") auto
        then show ?thesis unfolding old by blast
      qed
      finally show ?thesis .
    qed
  qed
  have k: "k = nat (b + 1 - (a + 1))" using Suc.hyps(2) by simp
  have a12: "2 \<le> a + 1" using Suc.prems(2) by simp
  from Suc.hyps(1) [OF k len1 a12 inv1] obtain sv' where
    sv': "sieve_outer limit [a + 1..b] sv1 = Inr sv'" "length sv' = length sv1"
      "\<forall>n<length sv'. sv' ! n
          = (2 \<le> int n \<and> (\<forall>p. prime_int p \<and> p < max (a + 1) (b + 1) \<and> p * p \<le> int n
                \<longrightarrow> \<not> p dvd int n))"
    by blast
  have mx: "max (a + 1) (b + 1) = max a (b + 1)" using ab by simp
  have "length sv' = length sv" using sv'(2) len1 Suc.prems(1) by simp
  with sv' step mx show ?case by auto
qed

lemma generate_primes_correct:
  assumes lo: "2 \<le> limit" and hi: "limit < 2 ^ 100"
  shows "generate_primes limit = Inr (filter prime_int [0..limit])"
proof -
  from math_sqrt_int [of limit] lo hi obtain root where
    root: "math_sqrt limit = Inr root" "isqrt limit \<le> int_of_double root"
      "int_of_double root \<le> limit"
    by auto
  define r where "r = int_of_double root"
  define sv0 where "sv0 = (replicate (nat (limit + 1)) True)[0 := False, 1 := False]"
  have len0: "length sv0 = nat (limit + 1)" by (simp add: sv0_def)
  have inv0: "\<forall>n<length sv0. sv0 ! n
        = (2 \<le> int n \<and> (\<forall>p. prime_int p \<and> p < 2 \<and> p * p \<le> int n \<longrightarrow> \<not> p dvd int n))"
  proof (intro allI impI)
    fix n assume n: "n < length sv0"
    have n': "n < nat (limit + 1)" using n by (simp add: sv0_def)
    have "sv0 ! n = (n \<noteq> 0 \<and> n \<noteq> 1)"
    proof (cases "n = 0 \<or> n = 1")
      case True
      then show ?thesis using n' by (auto simp: sv0_def nth_list_update)
    next
      case False
      then show ?thesis using n' by (simp add: sv0_def nth_list_update)
    qed
    moreover have "\<not> (prime_int p \<and> p < 2)" for p by (auto dest: prime_int_ge2)
    ultimately show "sv0 ! n
        = (2 \<le> int n \<and> (\<forall>p. prime_int p \<and> p < 2 \<and> p * p \<le> int n \<longrightarrow> \<not> p dvd int n))"
      by auto
  qed
  have rl: "r \<le> limit" using root(3) by (simp add: r_def)
  from sieve_outer_correct [OF len0 order_refl rl inv0] obtain sv where
    sv: "sieve_outer limit [2..r] sv0 = Inr sv" "length sv = length sv0"
      "\<forall>n<length sv. sv ! n
          = (2 \<le> int n \<and> (\<forall>p. prime_int p \<and> p < max 2 (r + 1) \<and> p * p \<le> int n
                \<longrightarrow> \<not> p dvd int n))"
    by blast
  have nth: "sv ! nat i = prime_int i" if i: "0 \<le> i" "i \<le> limit" for i
  proof (cases "2 \<le> i")
    case False
    then have "\<not> prime_int i" by (auto dest: prime_int_ge2)
    moreover have "nat i < length sv" using i lo by (simp add: sv(2) len0)
    ultimately show ?thesis using sv(3) [rule_format, of "nat i"] False i by simp
  next
    case True
    have ni: "nat i < length sv" using i lo by (simp add: sv(2) len0)
    have e: "int (nat i) = i" using i by simp
    have "sv ! nat i
        = (2 \<le> i \<and> (\<forall>p. prime_int p \<and> p < max 2 (r + 1) \<and> p * p \<le> i \<longrightarrow> \<not> p dvd i))"
      using sv(3) [rule_format, OF ni] unfolding e .
    also have "\<dots> = (\<forall>p. prime_int p \<and> p < max 2 (r + 1) \<and> p * p \<le> i \<longrightarrow> \<not> p dvd i)"
      using True by simp
    also have "\<dots> = (\<forall>p. prime_int p \<and> p * p \<le> i \<longrightarrow> \<not> p dvd i)"
    proof -
      have "p < max 2 (r + 1)" if p: "prime_int p" "p * p \<le> i" for p
      proof -
        have p0: "0 \<le> p" using p(1) by (auto dest: prime_int_ge2)
        have "p * p \<le> limit" using p(2) i(2) by simp
        then have "p \<le> isqrt limit" using p0 by (intro isqrt_ge)
        with root(2) show ?thesis by (simp add: r_def)
      qed
      then show ?thesis by blast
    qed
    also have "\<dots> = prime_int i" using prime_int_iff_prime_small [OF True] by simp
    finally show ?thesis .
  qed
  have "filter (\<lambda>i. sv ! nat i) [0..limit] = filter prime_int [0..limit]"
    by (rule filter_cong) (auto simp: nth)
  then show ?thesis
    using lo root(1) sv(1)
    unfolding generate_primes_def Let_def py_range_def sv0_def r_def by simp
qed

lemma filter_prime_small: "limit < 2 \<Longrightarrow> filter prime_int [0..limit] = []"
  by (auto simp: filter_empty_conv dest: prime_int_ge2)

section \<open>Chen primes\<close>

text \<open>
  The loop of \<open>is_chen_prime\<close> stops at the least divisor \<open>d \<ge> 2\<close> of \<open>n + 2\<close>, which is
  prime; \<open>n + 2\<close> is a product of two primes exactly when the cofactor is prime too.
\<close>

lemma prime_int_dvd_prime: "prime_int p \<Longrightarrow> 2 \<le> d \<Longrightarrow> d dvd p \<Longrightarrow> d = p"
proof -
  assume p: "prime_int p" and d: "2 \<le> d" "d dvd p"
  have "d \<le> p" using d(2) p by (intro zdvd_imp_le) (auto dest: prime_int_ge2)
  with p d show ?thesis by (cases "d = p") (auto simp: prime_int_def)
qed

lemma prime_int_dvd_mult:
  assumes d: "prime_int d" and dvd: "d dvd p * q"
  shows "d dvd p \<or> d dvd q"
proof (cases "d dvd p")
  case True
  then show ?thesis by simp
next
  case False
  define g where "g = gcd d p"
  have g0: "0 \<le> g" by (simp add: g_def)
  have gd: "g dvd d" and gp: "g dvd p" by (simp_all add: g_def)
  have d2: "2 \<le> d" using d by (rule prime_int_ge2)
  have "g \<noteq> 0" using gd d2 by auto
  with g0 have g1: "1 \<le> g" by simp
  have "g = 1"
  proof (rule ccontr)
    assume "g \<noteq> 1"
    with g1 have "2 \<le> g" by simp
    from prime_int_dvd_prime [OF d this gd] gp False show False by simp
  qed
  then have "coprime d p" by (simp add: g_def coprime_iff_gcd_eq_1)
  with dvd have "d dvd q" by (simp add: coprime_dvd_mult_right_iff)
  then show ?thesis by simp
qed

lemma least_divisor_prime:
  assumes d: "2 \<le> d" "d dvd m" and least: "\<forall>d'. 2 \<le> d' \<and> d' < d \<longrightarrow> \<not> d' dvd m"
  shows "prime_int d"
  unfolding prime_int_def
proof (intro conjI allI impI)
  show "1 < d" using d(1) by simp
next
  fix c assume c: "1 < c \<and> c < d"
  show "\<not> c dvd d"
  proof
    assume "c dvd d"
    from this d(2) have "c dvd m" by (rule dvd_trans)
    with least c show False by auto
  qed
qed

lemma chen_loop_upto:
  assumes "2 \<le> a" and "\<forall>d. 2 \<le> d \<and> d < a \<longrightarrow> \<not> d dvd m"
    and "\<exists>d. a \<le> d \<and> d \<le> b \<and> d dvd m"
  shows "\<exists>d. 2 \<le> d \<and> d \<le> b \<and> d dvd m \<and> (\<forall>d'. 2 \<le> d' \<and> d' < d \<longrightarrow> \<not> d' dvd m)
           \<and> chen_loop m [a..b] = (is_prime d \<and> is_prime (m div d))"
  using assms
proof (induction "nat (b + 1 - a)" arbitrary: a)
  case 0
  then have "b < a" by simp
  with "0.prems"(3) show ?case by auto
next
  case (Suc k)
  then have ab: "a \<le> b" by simp
  then have ups: "[a..b] = a # [a + 1..b]" by (simp add: upto_rec1)
  show ?case
  proof (cases "a dvd m")
    case True
    then have "chen_loop m [a..b] = (is_prime a \<and> is_prime (m div a))"
      by (simp add: ups)
    with True ab Suc.prems(1,2) show ?thesis by blast
  next
    case False
    then have step: "chen_loop m [a..b] = chen_loop m [a + 1..b]"
      by (simp add: ups dvd_eq_mod_eq_0)
    have k: "k = nat (b + 1 - (a + 1))" using Suc.hyps(2) by simp
    have a2: "2 \<le> a + 1" using Suc.prems(1) by simp
    have nd: "\<forall>d. 2 \<le> d \<and> d < a + 1 \<longrightarrow> \<not> d dvd m"
    proof (intro allI impI)
      fix d assume "2 \<le> d \<and> d < a + 1"
      then have "(2 \<le> d \<and> d < a) \<or> d = a" by auto
      with Suc.prems(2) False show "\<not> d dvd m" by blast
    qed
    have ex: "\<exists>d. a + 1 \<le> d \<and> d \<le> b \<and> d dvd m"
    proof -
      from Suc.prems(3) obtain d where d: "a \<le> d" "d \<le> b" "d dvd m" by blast
      with False have "d \<noteq> a" by auto
      with d show ?thesis by (intro exI [of _ d]) auto
    qed
    from Suc.hyps(1) [OF k a2 nd ex] step show ?thesis by simp
  qed
qed

lemma is_chen_prime_correct:
  assumes n: "prime_int n" and hi: "n + 2 < 2 ^ 100"
  shows "is_chen_prime n = Inr (prime_int (n + 2) \<or> semiprime (n + 2))"
proof (cases "prime_int (n + 2)")
  case True
  with n show ?thesis by (simp add: is_chen_prime_def is_prime_correct)
next
  case False
  define m where "m = n + 2"
  have n2: "2 \<le> n" using n by (rule prime_int_ge2)
  then have m4: "4 \<le> m" by (simp add: m_def)
  have npm: "\<not> prime_int m" using False by (simp add: m_def)
  from math_sqrt_int [of m] m4 hi obtain root where
    root: "math_sqrt m = Inr root" "isqrt m \<le> int_of_double root"
    by (auto simp: m_def)
  define r where "r = int_of_double root"
  from small_prime_divisor [of m] m4 npm obtain p where
    p: "prime_int p" "p dvd m" "p * p \<le> m" by auto
  have p2: "2 \<le> p" using p(1) by (rule prime_int_ge2)
  then have "p \<le> isqrt m" using p(3) by (intro isqrt_ge) auto
  with root(2) have pr: "p \<le> r" by (simp add: r_def)
  have ex: "\<exists>d. 2 \<le> d \<and> d \<le> r \<and> d dvd m" using p2 pr p(2) by blast
  have nd: "\<forall>d::int. 2 \<le> d \<and> d < 2 \<longrightarrow> \<not> d dvd m" by (intro allI impI) linarith
  from chen_loop_upto [OF order_refl nd ex] obtain d where
    d: "2 \<le> d" "d \<le> r" "d dvd m" "\<forall>d'. 2 \<le> d' \<and> d' < d \<longrightarrow> \<not> d' dvd m"
      "chen_loop m [2..r] = (is_prime d \<and> is_prime (m div d))"
    by blast
  have pd: "prime_int d" using d(1,3,4) by (rule least_divisor_prime)
  have md: "m = d * (m div d)" using d(3) by simp
  have "prime_int (m div d) \<longleftrightarrow> semiprime m"
  proof
    assume "prime_int (m div d)"
    with pd md show "semiprime m" unfolding semiprime_def by blast
  next
    assume "semiprime m"
    then obtain p q where pq: "prime_int p" "prime_int q" "m = p * q"
      unfolding semiprime_def by blast
    have p0: "p \<noteq> 0" "q \<noteq> 0" using pq(1,2) by (auto dest: prime_int_ge2)
    from d(3) pq(3) have "d dvd p * q" by simp
    with prime_int_dvd_mult [OF pd] have "d dvd p \<or> d dvd q" by blast
    then show "prime_int (m div d)"
    proof
      assume "d dvd p"
      from prime_int_dvd_prime [OF pq(1) d(1) this] have "d = p" .
      then have "m div d = q" using pq(3) p0 by simp
      with pq(2) show ?thesis by simp
    next
      assume "d dvd q"
      from prime_int_dvd_prime [OF pq(2) d(1) this] have "d = q" .
      then have "m div d = p" using pq(3) p0 by simp
      with pq(1) show ?thesis by simp
    qed
  qed
  with d(5) pd have "chen_loop m [2..r] = semiprime m" by (simp add: is_prime_correct)
  then show ?thesis
    using n npm m4 root(1) False
    by (simp add: is_chen_prime_def is_prime_correct Let_def m_def [symmetric] py_range_def
        r_def [symmetric])
qed

section \<open>Happy numbers\<close>

text \<open>
  The sum of the squared digits of \<open>n \<ge> 0\<close> is at most \<open>max n 243\<close>, so the values the
  loop visits stay in a finite interval and each iteration removes one value of that
  interval from the values not yet seen.  The loop therefore returns; it returns
  \<open>True\<close> exactly when the orbit of \<open>n\<close> reaches 1, because the values seen so far are
  different from 1 and closed under the digit map once \<open>n\<close> is one of them.
\<close>

lemma sum_sq_digits_small: "n < 10 \<Longrightarrow> sum_sq_digits n = n * n"
  by (subst sum_sq_digits_def, subst digits.simps) simp

lemma sum_sq_digits_step:
  "10 \<le> n \<Longrightarrow> sum_sq_digits n = sum_sq_digits (n div 10) + (n mod 10) * (n mod 10)"
  by (subst sum_sq_digits_def, subst digits.simps) (simp add: sum_sq_digits_def)

lemma digit_square_le: "(n::int) mod 10 * (n mod 10) \<le> 81"
proof -
  have "0 \<le> n mod 10" "n mod 10 \<le> 9" by simp_all
  then have "n mod 10 * (n mod 10) \<le> 9 * 9" by (intro mult_mono) simp_all
  then show ?thesis by simp
qed

lemma sum_sq_digits_nonneg: "0 \<le> n \<Longrightarrow> 0 \<le> sum_sq_digits n"
proof (induction n rule: digits.induct)
  case (1 n)
  show ?case
  proof (cases "n < 10")
    case True
    then show ?thesis by (simp add: sum_sq_digits_small)
  next
    case False
    then have "0 \<le> sum_sq_digits (n div 10)" using "1.IH" "1.prems" by simp
    with False show ?thesis by (simp add: sum_sq_digits_step)
  qed
qed

lemma sum_sq_digits_lt10: "0 \<le> n \<Longrightarrow> n < 10 \<Longrightarrow> sum_sq_digits n \<le> 81"
proof -
  assume "0 \<le> n" "n < 10"
  then have "n * n \<le> 9 * 9" by (intro mult_mono) simp_all
  with \<open>n < 10\<close> show ?thesis by (simp add: sum_sq_digits_small)
qed

lemma sum_sq_digits_lt100: "0 \<le> n \<Longrightarrow> n < 100 \<Longrightarrow> sum_sq_digits n \<le> 162"
proof (cases "n < 10")
  case True
  assume "0 \<le> n"
  from sum_sq_digits_lt10 [OF this True] show ?thesis by simp
next
  case False
  assume "0 \<le> n" "n < 100"
  then have "sum_sq_digits (n div 10) \<le> 81" by (intro sum_sq_digits_lt10) simp_all
  with False digit_square_le [of n] show ?thesis by (simp add: sum_sq_digits_step)
qed

lemma sum_sq_digits_lt1000: "0 \<le> n \<Longrightarrow> n < 1000 \<Longrightarrow> sum_sq_digits n \<le> 243"
proof (cases "n < 10")
  case True
  assume "0 \<le> n"
  from sum_sq_digits_lt10 [OF this True] show ?thesis by simp
next
  case False
  assume "0 \<le> n" "n < 1000"
  then have "sum_sq_digits (n div 10) \<le> 162" by (intro sum_sq_digits_lt100) simp_all
  with False digit_square_le [of n] show ?thesis by (simp add: sum_sq_digits_step)
qed

lemma sum_sq_digits_ge1000: "1000 \<le> n \<Longrightarrow> sum_sq_digits n \<le> n"
proof (induction n rule: digits.induct)
  case (1 n)
  have ge: "10 \<le> n" using "1.prems" by simp
  have "sum_sq_digits (n div 10) \<le> max (n div 10) 243"
  proof (cases "1000 \<le> n div 10")
    case True
    with "1.IH" ge show ?thesis by simp
  next
    case False
    have "0 \<le> n div 10" using ge by simp
    from sum_sq_digits_lt1000 [OF this] False show ?thesis by simp
  qed
  moreover have "n div 10 + 81 \<le> n" using "1.prems" by linarith
  ultimately have "sum_sq_digits (n div 10) + 81 \<le> n" using "1.prems" by linarith
  with digit_square_le [of n] ge show ?case by (simp add: sum_sq_digits_step)
qed

lemma sum_sq_digits_le: "0 \<le> n \<Longrightarrow> sum_sq_digits n \<le> max n 243"
proof (cases "n < 1000")
  case True
  assume "0 \<le> n"
  from sum_sq_digits_lt1000 [OF this True] show ?thesis by simp
next
  case False
  then have "sum_sq_digits n \<le> n" by (intro sum_sq_digits_ge1000) simp
  then show ?thesis by simp
qed

lemma orbit_closed:
  assumes "\<forall>s \<in> S. sum_sq_digits s \<in> S" and "n \<in> S"
  shows "(sum_sq_digits ^^ k) n \<in> S"
  using assms by (induction k) simp_all

lemma happy_loop_returns:
  assumes "0 \<le> n" and "n \<le> B" and "243 \<le> B"
    and "\<forall>s \<in> seen. s \<noteq> 1 \<and> sum_sq_digits s \<in> insert n seen"
  shows "happy_loop seen n = Some (Inr (\<exists>k. (sum_sq_digits ^^ k) n = 1))"
  using assms
proof (induction "card ({0..B} - seen)" arbitrary: seen n rule: less_induct)
  case less
  show ?case
  proof (cases "n = 1")
    case True
    have "(sum_sq_digits ^^ 0) n = 1" using True by simp
    then have "\<exists>k. (sum_sq_digits ^^ k) n = 1" by (rule exI)
    with True show ?thesis by (subst happy_loop.simps) simp
  next
    case n1: False
    show ?thesis
    proof (cases "n \<in> seen")
      case True
      then have ins: "insert n seen = seen" by auto
      have closed: "\<forall>s \<in> seen. sum_sq_digits s \<in> seen" using less.prems(4) ins by simp
      have "\<not> (\<exists>k. (sum_sq_digits ^^ k) n = 1)"
      proof
        assume "\<exists>k. (sum_sq_digits ^^ k) n = 1"
        then obtain k where k: "(sum_sq_digits ^^ k) n = 1" ..
        from orbit_closed [OF closed True, of k] k have "1 \<in> seen" by simp
        with less.prems(4) show False by blast
      qed
      with True n1 show ?thesis by (subst happy_loop.simps) simp
    next
      case False
      define n' where "n' = sum_sq_digits n"
      have n'0: "0 \<le> n'" unfolding n'_def using less.prems(1) by (rule sum_sq_digits_nonneg)
      have "n' \<le> max n 243" unfolding n'_def using less.prems(1) by (rule sum_sq_digits_le)
      with less.prems(2,3) have n'B: "n' \<le> B" by simp
      have inv: "\<forall>s \<in> insert n seen. s \<noteq> 1 \<and> sum_sq_digits s \<in> insert n' (insert n seen)"
        using less.prems(4) n1 by (auto simp: n'_def)
      have mem: "n \<in> {0..B} - seen" using less.prems(1,2) False by simp
      have fin: "finite ({0..B} - seen)" by simp
      have eq: "{0..B} - insert n seen = ({0..B} - seen) - {n}" by blast
      have "card ({0..B} - insert n seen) < card ({0..B} - seen)"
        unfolding eq using fin mem by (rule card_Diff1_less)
      from less.hyps [OF this n'0 n'B less.prems(3) inv]
      have rec: "happy_loop (insert n seen) n' = Some (Inr (\<exists>k. (sum_sq_digits ^^ k) n' = 1))" .
      have "(\<exists>k. (sum_sq_digits ^^ k) n = 1) \<longleftrightarrow> (\<exists>k. (sum_sq_digits ^^ k) n' = 1)"
      proof
        assume "\<exists>k. (sum_sq_digits ^^ k) n = 1"
        then obtain k where k: "(sum_sq_digits ^^ k) n = 1" ..
        with n1 have "k \<noteq> 0" by (cases k) auto
        then obtain j where "k = Suc j" by (cases k) auto
        with k have "(sum_sq_digits ^^ j) n' = 1" by (simp add: n'_def funpow_swap1)
        then show "\<exists>k. (sum_sq_digits ^^ k) n' = 1" ..
      next
        assume "\<exists>k. (sum_sq_digits ^^ k) n' = 1"
        then obtain k where "(sum_sq_digits ^^ k) n' = 1" ..
        then have "(sum_sq_digits ^^ Suc k) n = 1" by (simp add: n'_def funpow_swap1)
        then show "\<exists>k. (sum_sq_digits ^^ k) n = 1" ..
      qed
      with rec False n1 less.prems(1) show ?thesis
        by (subst happy_loop.simps) (simp add: n'_def)
    qed
  qed
qed

lemma is_happy_number_returns:
  "0 \<le> n \<Longrightarrow> is_happy_number n = Some (Inr (\<exists>k. (sum_sq_digits ^^ k) n = 1))"
  unfolding is_happy_number_def
  by (rule happy_loop_returns [where B = "max n 243"]) simp_all

section \<open>Evaluation\<close>

declare happy_loop.simps [code]

lemma generate_primes_30: "generate_primes 30 = Inr [2, 3, 5, 7, 11, 13, 17, 19, 23, 29]"
  by code_simp

lemma generate_primes_set_30: "generate_primes_set 30 = Inr primes_up_to_30"
  by (simp add: generate_primes_set_def generate_primes_30 primes_up_to_30_def)

lemma is_happy_prime_7: "is_happy_prime 7 = Some (Inr True)"
  by code_simp

lemma is_happy_prime_11: "is_happy_prime 11 = Some (Inr False)"
  by code_simp

lemma is_happy_number_19: "is_happy_number 19 = Some (Inr True)"
  by code_simp

lemma is_happy_number_4: "is_happy_number 4 = Some (Inr False)"
  by code_simp

section \<open>The classifier\<close>

lemma classify_prime_eq_spec: "classify_prime n ps = spec_classify n ps"
  by (simp add: classify_prime_def spec_classify_def spec_rule_table_def bool.case_eq_if
      cong: if_cong sum.case_cong option.case_cong split del: if_split)

lemma classify_7: "classify_prime 7 primes_up_to_30 = Some (Inr ''mersenne_prime'')"
  unfolding primes_up_to_30_def by code_simp

lemma classify_2: "classify_prime 2 primes_up_to_30 = Some (Inr ''factorial_prime'')"
  unfolding primes_up_to_30_def by code_simp

text \<open>
  C2.  \<open>classify_prime\<close> evaluates the family predicates in the fixed order mersenne,
  factorial, wieferich, fibonacci, twin, sexy, isolated, safe, sophie_germain, chen,
  palindromic, circular, cuban, happy: for every \<open>n\<close> and every set of primes it
  returns what the ordered rule table returns, the label of the first predicate that
  is true and \<open>regular_prime\<close> when none is.  With the primes up to 30 (the result of
  the sieve for 30), 7 is classified \<open>mersenne_prime\<close>, not \<open>twin_prime\<close>, although it
  is a twin prime, and 2 is classified \<open>factorial_prime\<close>, not \<open>regular_prime\<close>.
\<close>

theorem classify_prime_priority_order:
  "classify_prime n ps = first_match spec_rule_table n ps
   \<and> map fst spec_rule_table =
       [''mersenne_prime'', ''factorial_prime'', ''wieferich_prime'', ''fibonacci_prime'',
        ''twin_prime'', ''sexy_prime'', ''isolated_prime'', ''safe_prime'',
        ''sophie_germain_prime'', ''chen_prime'', ''palindromic_prime'', ''circular_prime'',
        ''cuban_prime'', ''happy_prime'']
   \<and> generate_primes_set 30 = Inr primes_up_to_30
   \<and> is_twin_prime 7 primes_up_to_30
   \<and> classify_prime 7 primes_up_to_30 = Some (Inr ''mersenne_prime'')
   \<and> classify_prime 7 primes_up_to_30 \<noteq> Some (Inr ''twin_prime'')
   \<and> classify_prime 2 primes_up_to_30 = Some (Inr ''factorial_prime'')
   \<and> classify_prime 2 primes_up_to_30 \<noteq> Some (Inr ''regular_prime'')"
proof -
  have "classify_prime n ps = first_match spec_rule_table n ps"
    using classify_prime_eq_spec [of n ps] by (simp add: spec_classify_def)
  moreover have "map fst spec_rule_table =
       [''mersenne_prime'', ''factorial_prime'', ''wieferich_prime'', ''fibonacci_prime'',
        ''twin_prime'', ''sexy_prime'', ''isolated_prime'', ''safe_prime'',
        ''sophie_germain_prime'', ''chen_prime'', ''palindromic_prime'', ''circular_prime'',
        ''cuban_prime'', ''happy_prime'']"
    by (simp add: spec_rule_table_def)
  moreover have "is_twin_prime 7 primes_up_to_30"
    by (simp add: is_twin_prime_def primes_up_to_30_def)
  ultimately show ?thesis
    by (simp add: classify_7 classify_2 generate_primes_set_30)
qed

theorem classify_prime_priority_order_witness:
  "classify_prime 11 primes_up_to_30 = first_match spec_rule_table 11 primes_up_to_30
   \<and> classify_prime 11 primes_up_to_30 = Some (Inr ''twin_prime'')"
proof -
  have "classify_prime 11 primes_up_to_30 = Some (Inr ''twin_prime'')"
    unfolding primes_up_to_30_def by code_simp
  then show ?thesis
    using classify_prime_priority_order [of 11 primes_up_to_30] by simp
qed

text \<open>
  C9.  \<open>classify_prime\<close> returns normally, with the label \<open>regular_prime\<close>, for every
  integer \<open>n\<close> that \<open>is_prime\<close> rejects (negative \<open>n\<close> included) and every set whose
  members all pass \<open>is_prime\<close>: no exception is raised and nothing checks the
  precondition that \<open>n\<close> is prime.
\<close>

theorem classify_prime_non_prime:
  assumes "\<not> is_prime n" and "\<forall>p \<in> ps. is_prime p"
  shows "classify_prime n ps = Some (Inr ''regular_prime'')"
proof -
  from assms have "n \<notin> ps" by blast
  with assms(1) show ?thesis
    by (simp add: classify_prime_def is_mersenne_prime_def is_factorial_prime_def
        is_wieferich_prime_def is_fibonacci_prime_def is_twin_prime_def is_sexy_prime_def
        is_isolated_prime_def is_safe_prime_def is_sophie_germain_prime_def
        is_chen_prime_def is_palindromic_prime_def is_circular_prime_def
        is_cuban_prime_def is_happy_prime_def)
qed

theorem classify_prime_non_prime_witness:
  "\<not> is_prime 4 \<and> \<not> is_prime (- 3) \<and> list_all is_prime [2, 3, 5, 7, 11, 13, 17, 19, 23, 29]
   \<and> classify_prime 4 primes_up_to_30 = Some (Inr ''regular_prime'')
   \<and> classify_prime (- 3) primes_up_to_30 = Some (Inr ''regular_prime'')"
proof -
  have a: "\<not> is_prime 4" by (simp add: is_prime_def)
  have b: "\<not> is_prime (- 3)" by (simp add: is_prime_def)
  have c: "\<forall>p \<in> primes_up_to_30. is_prime p"
    unfolding primes_up_to_30_def by code_simp
  have d: "list_all is_prime [2, 3, 5, 7, 11, 13, 17, 19, 23, 29]"
    using c by (simp add: primes_up_to_30_def)
  show ?thesis
    using a b d classify_prime_non_prime [OF a c] classify_prime_non_prime [OF b c] by simp
qed

text \<open>
  C10.  Twin and isolated are complements: when \<open>is_prime n\<close> holds and \<open>n\<close> is in the
  prime set, \<open>is_isolated_prime\<close> is true exactly when \<open>is_twin_prime\<close> is false.
\<close>

theorem isolated_iff_not_twin:
  assumes "is_prime n" and "n \<in> primes_set"
  shows "is_isolated_prime n primes_set \<longleftrightarrow> \<not> is_twin_prime n primes_set"
  using assms by (auto simp: is_isolated_prime_def is_twin_prime_def)

theorem isolated_iff_not_twin_witness:
  "is_prime 23 \<and> 23 \<in> primes_up_to_30
   \<and> is_isolated_prime 23 primes_up_to_30 \<and> \<not> is_twin_prime 23 primes_up_to_30
   \<and> is_prime 11 \<and> 11 \<in> primes_up_to_30
   \<and> \<not> is_isolated_prime 11 primes_up_to_30 \<and> is_twin_prime 11 primes_up_to_30"
proof -
  have a: "is_prime 23" by code_simp
  have b: "23 \<in> primes_up_to_30" by (simp add: primes_up_to_30_def)
  have c: "is_twin_prime 11 primes_up_to_30"
    by (simp add: is_twin_prime_def primes_up_to_30_def)
  have d: "\<not> is_twin_prime 23 primes_up_to_30"
    by (simp add: is_twin_prime_def primes_up_to_30_def)
  have e: "is_prime 11" by code_simp
  have f: "11 \<in> primes_up_to_30" by (simp add: primes_up_to_30_def)
  show ?thesis
    using a b c d e f isolated_iff_not_twin [OF a b] isolated_iff_not_twin [OF e f] by simp
qed

section \<open>The sieve\<close>

text \<open>
  C3 (as the code behaves).  For a negative bound \<open>generate_primes\<close> does not fail:
  the test \<open>limit < 2\<close> returns the empty list.  The code has no \<open>InvalidBound\<close>
  condition.
\<close>

theorem generate_primes_negative_returns_empty:
  "bound < 0 \<Longrightarrow> generate_primes bound = Inr []"
  by (simp add: generate_primes_def)

theorem generate_primes_negative_returns_empty_witness:
  "(- 5 :: int) < 0 \<and> generate_primes (- 5) = Inr []"
  using generate_primes_negative_returns_empty [of "- 5"] by simp

theorem generate_primes_negative_counterexample:
  "(- 1 :: int) < 0 \<and> generate_primes (- 1) = Inr []"
  by (simp add: generate_primes_def)

lemma primes_up_to_30_list: "filter prime_int [0..30] = [2, 3, 5, 7, 11, 13, 17, 19, 23, 29]"
proof -
  have "filter is_prime [0..30] = [2, 3, 5, 7, 11, 13, 17, 19, 23, 29]" by code_simp
  moreover have "is_prime = prime_int" by (rule ext) (rule is_prime_correct)
  ultimately show ?thesis by simp
qed

text \<open>
  C4.  For a bound from 0 up to \<open>2 ^ 100\<close> (every native machine integer lies in this
  range), \<open>generate_primes\<close> returns normally, and its result is the increasing list
  of exactly the primes of \<open>[0, bound]\<close>: it has no 0, no 1 and no composite, it
  omits no prime, and it is empty for a bound below 2.  For 30 the result is
  2, 3, 5, 7, 11, 13, 17, 19, 23, 29.
\<close>

theorem generate_primes_exact:
  assumes "0 \<le> bound" and "bound < 2 ^ 100"
  shows "\<exists>ps. generate_primes bound = Inr ps
           \<and> ps = filter prime_int [0..bound]
           \<and> set ps = {p. prime_int p \<and> p \<le> bound}
           \<and> distinct ps \<and> sorted ps
           \<and> 0 \<notin> set ps \<and> 1 \<notin> set ps
           \<and> (bound < 2 \<longrightarrow> ps = [])"
proof -
  have gp: "generate_primes bound = Inr (filter prime_int [0..bound])"
  proof (cases "bound < 2")
    case True
    then show ?thesis by (simp add: generate_primes_def filter_prime_small)
  next
    case False
    with assms(2) show ?thesis by (intro generate_primes_correct) auto
  qed
  have "set (filter prime_int [0..bound]) = {p. prime_int p \<and> p \<le> bound}"
    by (auto dest: prime_int_ge2)
  moreover have "distinct (filter prime_int [0..bound])" by simp
  moreover have "sorted (filter prime_int [0..bound])" by (simp add: sorted_wrt_filter)
  moreover have "\<not> prime_int 0" "\<not> prime_int 1" by (auto dest: prime_int_ge2)
  moreover have "bound < 2 \<longrightarrow> filter prime_int [0..bound] = []"
    by (simp add: filter_prime_small)
  ultimately show ?thesis using gp by simp
qed

theorem generate_primes_exact_witness:
  "(0::int) \<le> 30 \<and> (30::int) < 2 ^ 100
   \<and> generate_primes 30 = Inr [2, 3, 5, 7, 11, 13, 17, 19, 23, 29]
   \<and> filter prime_int [0..30] = [2, 3, 5, 7, 11, 13, 17, 19, 23, 29]
   \<and> generate_primes 1 = Inr [] \<and> generate_primes 0 = Inr []"
proof -
  have a: "(0::int) \<le> 30" by simp
  have b: "(30::int) < 2 ^ 100" by simp
  from generate_primes_exact [OF a b] have "generate_primes 30 = Inr (filter prime_int [0..30])"
    by blast
  moreover have "generate_primes 1 = Inr []" "generate_primes 0 = Inr []"
    by (simp_all add: generate_primes_def)
  ultimately show ?thesis by (simp add: primes_up_to_30_list)
qed

text \<open>
  C5.  Trial division and the sieve agree: for \<open>0 \<le> n \<le> N < 2 ^ 100\<close> the sieve for \<open>N\<close>
  returns a list, and \<open>is_prime n\<close> holds exactly when \<open>n\<close> is in that list.
\<close>

theorem is_prime_agrees_with_sieve:
  assumes "0 \<le> n" and "n \<le> N" and "N < 2 ^ 100"
  shows "\<exists>ps. generate_primes N = Inr ps \<and> (is_prime n \<longleftrightarrow> n \<in> set ps)"
proof -
  have N0: "0 \<le> N" using assms(1,2) by simp
  have gp: "generate_primes N = Inr (filter prime_int [0..N])"
  proof (cases "N < 2")
    case True
    then show ?thesis by (simp add: generate_primes_def filter_prime_small)
  next
    case False
    with assms(3) show ?thesis by (intro generate_primes_correct) auto
  qed
  have "n \<in> set (filter prime_int [0..N]) \<longleftrightarrow> prime_int n" using assms(1,2) by simp
  with gp show ?thesis by (simp add: is_prime_correct)
qed

theorem is_prime_agrees_with_sieve_witness:
  "(0::int) \<le> 97 \<and> (97::int) \<le> 100 \<and> (100::int) < 2 ^ 100
   \<and> is_prime 97 \<and> \<not> is_prime 91
   \<and> (\<exists>ps. generate_primes 100 = Inr ps \<and> 97 \<in> set ps \<and> 91 \<notin> set ps)"
proof -
  have a: "(0::int) \<le> 97" "(97::int) \<le> 100" "(100::int) < 2 ^ 100"
    and b: "(0::int) \<le> 91" "(91::int) \<le> 100" by simp_all
  have p: "is_prime 97" "\<not> is_prime 91" by code_simp+
  from is_prime_agrees_with_sieve [OF a] is_prime_agrees_with_sieve [OF b a(3)] p
  show ?thesis using a by auto
qed

section \<open>The family predicates\<close>

text \<open>
  C7.  For a prime \<open>n\<close> with \<open>n + 2 < 2 ^ 100\<close> (every native machine integer lies in
  this range), \<open>is_chen_prime n\<close> returns normally, and it returns true exactly when
  \<open>n + 2\<close> is prime or is the product of two primes, which may be equal.
\<close>

theorem is_chen_prime_iff_prime_or_semiprime:
  assumes "prime_int n" and "n + 2 < 2 ^ 100"
  shows "is_chen_prime n = Inr (prime_int (n + 2) \<or> semiprime (n + 2))"
  using assms by (rule is_chen_prime_correct)

theorem is_chen_prime_iff_prime_or_semiprime_witness:
  "is_prime 7 \<and> (7::int) + 2 < 2 ^ 100 \<and> \<not> is_prime 9
   \<and> is_chen_prime 7 = Inr True \<and> semiprime 9
   \<and> is_prime 43 \<and> (43::int) + 2 < 2 ^ 100 \<and> \<not> is_prime 45
   \<and> is_chen_prime 43 = Inr False \<and> \<not> semiprime 45"
proof -
  have a: "is_prime 7" "\<not> is_prime 9" "is_prime 43" "\<not> is_prime 45" by code_simp+
  have b: "(7::int) + 2 < 2 ^ 100" "(43::int) + 2 < 2 ^ 100" by simp_all
  have c: "is_chen_prime 7 = Inr True" "is_chen_prime 43 = Inr False" by code_simp+
  have p: "prime_int 7" "prime_int 43" "\<not> prime_int 9" "\<not> prime_int 45"
    using a by (simp_all add: is_prime_correct)
  from is_chen_prime_iff_prime_or_semiprime [OF p(1) b(1)]
    is_chen_prime_iff_prime_or_semiprime [OF p(2) b(2)] c p(3,4)
  have "semiprime 9" "\<not> semiprime 45" by simp_all
  with a b c show ?thesis by simp
qed

text \<open>
  C6.  For every \<open>n \<ge> 0\<close> the loop of \<open>is_happy_number\<close>, which has no iteration bound and
  leaves only when \<open>n = 1\<close> or when \<open>n\<close> is in the set of visited values, returns a
  boolean, and that boolean tells whether the orbit of \<open>n\<close> under the sum of squared
  digits reaches 1.  \<open>is_happy_prime 7\<close> is true and \<open>is_happy_prime 11\<close> is false.
\<close>

theorem is_happy_number_terminates:
  assumes "0 \<le> n"
  shows "(\<exists>b. is_happy_number n = Some (Inr b) \<and> (b \<longleftrightarrow> (\<exists>k. (sum_sq_digits ^^ k) n = 1)))
         \<and> is_happy_prime 7 = Some (Inr True)
         \<and> is_happy_prime 11 = Some (Inr False)"
  using is_happy_number_returns [OF assms] by (simp add: is_happy_prime_7 is_happy_prime_11)

theorem is_happy_number_terminates_witness:
  "(0::int) \<le> 19 \<and> is_happy_number 19 = Some (Inr True) \<and> (\<exists>k. (sum_sq_digits ^^ k) 19 = 1)
   \<and> (0::int) \<le> 4 \<and> is_happy_number 4 = Some (Inr False) \<and> (\<nexists>k. (sum_sq_digits ^^ k) 4 = 1)"
proof -
  have a: "(0::int) \<le> 19" "(0::int) \<le> 4" by simp_all
  from is_happy_number_terminates [OF a(1)] is_happy_number_19
  have b: "\<exists>k. (sum_sq_digits ^^ k) 19 = 1" by simp
  from is_happy_number_terminates [OF a(2)] is_happy_number_4
  have c: "\<nexists>k. (sum_sq_digits ^^ k) 4 = 1" by simp
  from a b c show ?thesis by (simp add: is_happy_number_19 is_happy_number_4)
qed

end
